theory Spec2Isabelle
  imports Main "HOL-Library.Product_Lexorder" "HOL-Library.Multiset"
begin

section \<open>Path planning: Dijkstra on an adjacency list, A* on a grid\<close>

text \<open>
  The two engines of the repository, \<^verbatim>\<open>dijkstra\<close> of \<^verbatim>\<open>src/dijkstra.cpp\<close> and
  \<^verbatim>\<open>aStarSearch\<close> of \<^verbatim>\<open>src/a_star.cpp\<close>, as HOL functions.

  Neither source function has a \<^verbatim>\<open>throw\<close>. What can go wrong in them is an index
  past the end of a vector and a signed sum outside \<^verbatim>\<open>int\<close>, both undefined
  behaviour in C++, and the \<^verbatim>\<open>std::length_error\<close> of the vector constructor for a
  negative size. Each is a value of \<open>error\<close>, returned at the place where the source
  would run into it.
\<close>

datatype error = OutOfBounds | SignedOverflow | LengthError

type_synonym cell = "int \<times> int"

subsection \<open>Dijkstra (\<^verbatim>\<open>src/dijkstra.cpp\<close>)\<close>

definition INT_MAX :: int where
  "INT_MAX = 2147483647"

definition INT_MIN :: int where
  "INT_MIN = - 2147483648"

text \<open>\<open>graph ! u\<close> is the list of pairs (v, weight) of the edges out of u.\<close>

type_synonym graph = "(int \<times> int) list list"

text \<open>
  The locals of \<^verbatim>\<open>dijkstra\<close>: the vector \<open>dist\<close> and the priority queue \<open>pq\<close>.
  The entries of \<open>pq\<close> are pairs of integers compared by \<^verbatim>\<open>greater<pair<int,int>>\<close>,
  the lexicographic order, so \<^verbatim>\<open>top()\<close> is the least pair in the queue whatever the
  layout of the heap: the queue is a list read as a multiset, \<^verbatim>\<open>top\<close> is \<open>Min\<close> and
  \<^verbatim>\<open>pop\<close> removes one copy of it.

  \<open>settled\<close> is a history variable, absent from the source and read by no branch: the
  vertices whose edge lists have been relaxed, in that order.
\<close>

record dstate =
  dist :: "int list"
  pq :: "(int \<times> int) list"
  settled :: "int list"

definition in_bounds :: "'a list \<Rightarrow> int \<Rightarrow> bool" where
  "in_bounds xs i = (0 \<le> i \<and> i < int (length xs))"

definition add_int :: "int \<Rightarrow> int \<Rightarrow> error + int" where
  "add_int a b =
     (if INT_MIN \<le> a + b \<and> a + b \<le> INT_MAX then Inr (a + b) else Inl SignedOverflow)"

text \<open>The \<^verbatim>\<open>for\<close> loop over the edges of u (lines 54 to 63).\<close>

fun relax_edges :: "int \<Rightarrow> (int \<times> int) list \<Rightarrow> dstate \<Rightarrow> error + dstate" where
  "relax_edges u [] st = Inr st"
| "relax_edges u ((v, weight) # es) st =
     (if \<not> in_bounds (dist st) u \<or> \<not> in_bounds (dist st) v then Inl OutOfBounds
      else (case add_int (dist st ! nat u) weight of
              Inl e \<Rightarrow> Inl e
            | Inr s \<Rightarrow>
                if s < dist st ! nat v
                then relax_edges u es (st\<lparr>dist := (dist st)[nat v := s], pq := (s, v) # pq st\<rparr>)
                else relax_edges u es st))"

definition dist_measure :: "int list \<Rightarrow> nat" where
  "dist_measure ds = sum_list (map (\<lambda>d. nat (d - INT_MIN)) ds)"

lemma dist_measure_update:
  assumes "i < length ds" "INT_MIN \<le> s" "s < ds ! i"
  shows "dist_measure (ds[i := s]) < dist_measure ds"
proof -
  have "sum_list (map (\<lambda>d. nat (d - INT_MIN)) (ds[i := s])) + nat (ds ! i - INT_MIN)
        = sum_list (map (\<lambda>d. nat (d - INT_MIN)) ds) + nat (s - INT_MIN)"
    using assms(1)
  proof (induction ds arbitrary: i)
    case Nil
    then show ?case by simp
  next
    case (Cons a ds)
    then show ?case by (cases i) auto
  qed
  moreover have "nat (s - INT_MIN) < nat (ds ! i - INT_MIN)" using assms by simp
  ultimately show ?thesis unfolding dist_measure_def by linarith
qed

lemma relax_edges_measure:
  "relax_edges u es st = Inr st' \<Longrightarrow>
     (dist st' = dist st \<and> pq st' = pq st) \<or> dist_measure (dist st') < dist_measure (dist st)"
proof (induction es arbitrary: st)
  case Nil
  then show ?case by simp
next
  case (Cons e es)
  obtain v w where e: "e = (v, w)" by (cases e)
  from Cons.prems e have ok: "in_bounds (dist st) u" "in_bounds (dist st) v"
    by (auto split: if_splits)
  from Cons.prems e ok obtain s where s: "add_int (dist st ! nat u) w = Inr s"
    by (auto split: sum.splits)
  then have smin: "INT_MIN \<le> s" by (auto simp: add_int_def split: if_splits)
  show ?case
  proof (cases "s < dist st ! nat v")
    case True
    let ?st1 = "st\<lparr>dist := (dist st)[nat v := s], pq := (s, v) # pq st\<rparr>"
    from Cons.prems e ok s True have "relax_edges u es ?st1 = Inr st'" by simp
    from Cons.IH[OF this] have "dist_measure (dist st') \<le> dist_measure (dist ?st1)" by auto
    moreover have "dist_measure (dist ?st1) < dist_measure (dist st)"
    proof -
      from ok have "nat v < length (dist st)" by (simp add: in_bounds_def nat_less_iff)
      then show ?thesis using True smin by (simp add: dist_measure_update)
    qed
    ultimately show ?thesis by simp
  next
    case False
    with Cons.prems e ok s have "relax_edges u es st = Inr st'" by simp
    from Cons.IH[OF this] show ?thesis .
  qed
qed

lemma length_remove1_less: "x \<in> set xs \<Longrightarrow> length (remove1 x xs) < length xs"
  by (induction xs) auto

text \<open>
  The \<^verbatim>\<open>while\<close> loop (lines 43 to 64). Every round either only pops, or lowers an entry
  of \<open>dist\<close>, which cannot fall below \<open>INT_MIN\<close>: the loop ends on every state.
\<close>

function dijkstra_loop :: "graph \<Rightarrow> dstate \<Rightarrow> error + dstate" where
  "dijkstra_loop graph st =
     (if pq st = [] then Inr st
      else
        let top = Min (set (pq st));
            currentDist = fst top;
            u = snd top;
            st1 = st\<lparr>pq := remove1 top (pq st)\<rparr>
        in if \<not> in_bounds (dist st1) u then Inl OutOfBounds
           else if currentDist > dist st1 ! nat u then dijkstra_loop graph st1
           else if \<not> in_bounds graph u then Inl OutOfBounds
           else (case relax_edges u (graph ! nat u) (st1\<lparr>settled := settled st1 @ [u]\<rparr>) of
                   Inl e \<Rightarrow> Inl e
                 | Inr st2 \<Rightarrow> dijkstra_loop graph st2))"
  by pat_completeness auto
termination
proof (relation "inv_image (less_than <*lex*> less_than)
         (\<lambda>(graph, st). (dist_measure (dist st), length (pq st)))", goal_cases)
  case 1
  show ?case by (simp add: wf_inv_image wf_lex_prod)
next
  case (2 graph st top currentDist u st1)
  then have "Min (set (pq st)) \<in> set (pq st)" by (intro Min_in) auto
  with 2 show ?case by (simp add: length_remove1_less)
next
  case (3 graph st top currentDist u st1 st2)
  then have m: "Min (set (pq st)) \<in> set (pq st)" by (intro Min_in) auto
  from 3 have "relax_edges u (graph ! nat u) (st1\<lparr>settled := settled st1 @ [u]\<rparr>) = Inr st2"
    by simp
  from relax_edges_measure[OF this] 3 m show ?case
    by (auto simp: length_remove1_less)
qed

declare dijkstra_loop.simps [simp del]

text \<open>
  \<^verbatim>\<open>dijkstra\<close> up to its \<^verbatim>\<open>return\<close>: the state the loop ends in. \<^verbatim>\<open>dist[source] = 0\<close> is
  the first index expression (line 31); nothing before it looks at n, the graph or
  the source.
\<close>

definition dijkstra_run :: "int \<Rightarrow> graph \<Rightarrow> int \<Rightarrow> error + dstate" where
  "dijkstra_run n graph source =
     (if n < 0 then Inl LengthError
      else
        let infinity = INT_MAX;
            dist0 = replicate (nat n) infinity
        in if \<not> in_bounds dist0 source then Inl OutOfBounds
           else dijkstra_loop graph
                  \<lparr>dist = dist0[nat source := 0], pq = [(0, source)], settled = []\<rparr>)"

definition dijkstra :: "int \<Rightarrow> graph \<Rightarrow> int \<Rightarrow> error + int list" where
  "dijkstra n graph source =
     (case dijkstra_run n graph source of Inl e \<Rightarrow> Inl e | Inr st \<Rightarrow> Inr (dist st))"

subsection \<open>Paths in a graph\<close>

text \<open>
  A path from u is the list of its steps (v, weight), each an entry of the edge list
  of the vertex it leaves; its weight is the sum of the weights.
\<close>

fun is_path :: "graph \<Rightarrow> int \<Rightarrow> (int \<times> int) list \<Rightarrow> int \<Rightarrow> bool" where
  "is_path g u [] t = (u = t)"
| "is_path g u (e # p) t = (in_bounds g u \<and> e \<in> set (g ! nat u) \<and> is_path g (fst e) p t)"

definition path_weight :: "(int \<times> int) list \<Rightarrow> int" where
  "path_weight p = sum_list (map snd p)"

definition reachable :: "graph \<Rightarrow> int \<Rightarrow> int \<Rightarrow> bool" where
  "reachable g s t = (\<exists>p. is_path g s p t)"

definition is_shortest :: "graph \<Rightarrow> int \<Rightarrow> int \<Rightarrow> int \<Rightarrow> bool" where
  "is_shortest g s t d =
     ((\<exists>p. is_path g s p t \<and> path_weight p = d) \<and> (\<forall>p. is_path g s p t \<longrightarrow> d \<le> path_weight p))"

definition wf_graph :: "int \<Rightarrow> graph \<Rightarrow> bool" where
  "wf_graph n g = (int (length g) = n \<and> (\<forall>es \<in> set g. \<forall>e \<in> set es. 0 \<le> fst e \<and> fst e < n))"

definition nonneg_weights :: "graph \<Rightarrow> bool" where
  "nonneg_weights g = (\<forall>es \<in> set g. \<forall>e \<in> set es. 0 \<le> snd e)"

definition weights_upto :: "int \<Rightarrow> graph \<Rightarrow> bool" where
  "weights_upto W g = (\<forall>es \<in> set g. \<forall>e \<in> set es. snd e \<le> W)"

text \<open>The graph with the weight of the k-th edge out of u replaced by w.\<close>

definition set_weight :: "graph \<Rightarrow> nat \<Rightarrow> nat \<Rightarrow> int \<Rightarrow> graph" where
  "set_weight g u k w = g[u := (g ! u)[k := (fst (g ! u ! k), w)]]"

subsection \<open>A* (\<^verbatim>\<open>src/a_star.cpp\<close>)\<close>

text \<open>
  The three costs of a node are \<^verbatim>\<open>float\<close> in the source. Every value the program
  gives them is a whole number: zero, the cast of an \<^verbatim>\<open>int\<close>, a cost plus \<^verbatim>\<open>1.0f\<close>,
  or the sum of two costs. So a cost is the integer it stands for, and every operation
  of the source that yields a \<^verbatim>\<open>float\<close> rounds its exact result to the nearest
  \<^verbatim>\<open>float\<close>, a tie going to the even significand (IEEE 754 binary32 in its default
  rounding mode). The significand of a \<^verbatim>\<open>float\<close> has 24 bits: from \<open>2 ^ 23 * u\<close> to
  \<open>2 ^ 24 * u\<close>, for u a power of two, the values of the type are the multiples of u.
  \<open>float_ulp m 1\<close> is that u for the magnitude m. The magnitudes from \<open>2 ^ 128\<close> on,
  which the type rounds to infinity, are out of reach: \<open>gCost\<close> stops growing at
  \<open>2 ^ 24\<close>, where adding \<^verbatim>\<open>1.0f\<close> rounds back, \<open>hCost\<close> is the cast of an \<^verbatim>\<open>int\<close>,
  and \<open>fCost\<close> is the sum of the two.
\<close>

function float_ulp :: "int \<Rightarrow> int \<Rightarrow> int" where
  "float_ulp m u = (if u \<le> 0 \<or> m < 16777216 * u then u else float_ulp m (2 * u))"
  by pat_completeness auto
termination
  by (relation "measure (\<lambda>(m, u). nat (m - u))") auto

declare float_ulp.simps [simp del]

definition float_round :: "int \<Rightarrow> int" where
  "float_round x =
     (let m = \<bar>x\<bar>;
          u = float_ulp m 1;
          q = m div u;
          r = m mod u;
          q' = (if 2 * r < u \<or> (2 * r = u \<and> even q) then q else q + 1)
      in sgn x * (q' * u))"

text \<open>The sum of two \<^verbatim>\<open>float\<close> values, as \<^verbatim>\<open>operator+\<close> gives it.\<close>

definition fadd :: "int \<Rightarrow> int \<Rightarrow> int" where
  "fadd a b = float_round (a + b)"

text \<open>
  \<^verbatim>\<open>struct Node\<close>. The constructor sets the three costs to zero and \<open>parent\<close> to
  \<^verbatim>\<open>nullptr\<close>.

  A \<^verbatim>\<open>Node*\<close> is the cell (r, c) of the node it points to: \<^verbatim>\<open>allNodes[r][c]\<close> is
  created once for every cell and never reassigned. The nodes live in a store, a
  function from cells to \<open>Node\<close> values, which the open set reads through.
\<close>

record Node =
  row :: int
  col :: int
  gCost :: int
  hCost :: int
  fCost :: int
  parent :: "cell option"

definition new_Node :: "int \<Rightarrow> int \<Rightarrow> Node" where
  "new_Node r c = \<lparr>row = r, col = c, gCost = 0, hCost = 0, fCost = 0, parent = None\<rparr>"

text \<open>\<^verbatim>\<open>CompareFCost\<close> reads \<open>fCost\<close> through both pointers at the time of the call.\<close>

definition CompareFCost :: "(cell \<Rightarrow> Node) \<Rightarrow> cell \<Rightarrow> cell \<Rightarrow> bool" where
  "CompareFCost nodes a b = (fCost (nodes a) > fCost (nodes b))"

text \<open>
  The two differences and their sum are \<^verbatim>\<open>int\<close> in the source, and the sum is cast to
  \<^verbatim>\<open>float\<close> (line 38). The sum is taken here without the bound of \<^verbatim>\<open>int\<close>, inside
  which it stays for any two cells of a grid of fewer than \<open>2 ^ 30\<close> rows and
  \<open>2 ^ 30\<close> columns.
\<close>

definition heuristicManhattan :: "int \<Rightarrow> int \<Rightarrow> int \<Rightarrow> int \<Rightarrow> int" where
  "heuristicManhattan row1 col1 row2 col2 = float_round (\<bar>row1 - row2\<bar> + \<bar>col1 - col2\<bar>)"

definition isValid :: "int \<Rightarrow> int \<Rightarrow> int \<Rightarrow> int \<Rightarrow> bool" where
  "isValid r c rows cols = (r \<ge> 0 \<and> r < rows \<and> c \<ge> 0 \<and> c < cols)"

subsubsection \<open>The open set: \<^verbatim>\<open>std::priority_queue<Node*, std::vector<Node*>, CompareFCost>\<close>\<close>

text \<open>
  The keys of this queue are not stored in it: the comparator reads \<open>fCost\<close> through
  the pointers, and line 128 overwrites the \<open>fCost\<close> of a node that may be in the
  queue already. After that the vector need not be a heap for the comparator any more,
  and which element \<^verbatim>\<open>top()\<close> returns depends on how the heap is laid out. So the
  adaptor is modelled down to the vector: \<^verbatim>\<open>push\<close> is \<^verbatim>\<open>push_back\<close> then
  \<^verbatim>\<open>std::push_heap\<close>, \<^verbatim>\<open>pop\<close> is \<^verbatim>\<open>std::pop_heap\<close> then \<^verbatim>\<open>pop_back\<close>, \<^verbatim>\<open>top\<close> is
  \<^verbatim>\<open>front\<close>, with the two heap algorithms as GNU libstdc++ has them
  (\<^verbatim>\<open>__push_heap\<close>, \<^verbatim>\<open>__adjust_heap\<close> and \<^verbatim>\<open>__pop_heap\<close> of \<^verbatim>\<open>bits/stl_heap.h\<close>).
\<close>

function push_heap_loop :: "('a \<Rightarrow> 'a \<Rightarrow> bool) \<Rightarrow> 'a list \<Rightarrow> nat \<Rightarrow> nat \<Rightarrow> 'a \<Rightarrow> 'a list" where
  "push_heap_loop cmp h holeIndex topIndex v =
     (if holeIndex > topIndex \<and> cmp (h ! ((holeIndex - 1) div 2)) v
      then push_heap_loop cmp (h[holeIndex := h ! ((holeIndex - 1) div 2)])
             ((holeIndex - 1) div 2) topIndex v
      else h[holeIndex := v])"
  by pat_completeness auto
termination
  by (relation "measure (\<lambda>(cmp, h, holeIndex, topIndex, v). holeIndex)") auto

declare push_heap_loop.simps [simp del]

definition push_heap :: "('a \<Rightarrow> 'a \<Rightarrow> bool) \<Rightarrow> 'a list \<Rightarrow> 'a list" where
  "push_heap cmp h = push_heap_loop cmp h (length h - 1) 0 (h ! (length h - 1))"

text \<open>
  The first loop of \<^verbatim>\<open>__adjust_heap\<close>: the hole moves down to the child that the
  comparator prefers, as far as a node with two children goes. \<open>holeIndex\<close> and
  \<open>secondChild\<close> are equal at the head of every round, so one index stands for both.
\<close>

function adjust_heap_loop :: "('a \<Rightarrow> 'a \<Rightarrow> bool) \<Rightarrow> 'a list \<Rightarrow> nat \<Rightarrow> nat \<Rightarrow> 'a list \<times> nat" where
  "adjust_heap_loop cmp h len secondChild =
     (if secondChild < (len - 1) div 2
      then (let c2 = 2 * (secondChild + 1);
                c = (if cmp (h ! c2) (h ! (c2 - 1)) then c2 - 1 else c2)
            in adjust_heap_loop cmp (h[secondChild := h ! c]) len c)
      else (h, secondChild))"
  by pat_completeness auto
termination
  by (relation "measure (\<lambda>(cmp, h, len, secondChild). len - secondChild)") (auto simp: Let_def)

declare adjust_heap_loop.simps [simp del]

definition adjust_heap :: "('a \<Rightarrow> 'a \<Rightarrow> bool) \<Rightarrow> 'a list \<Rightarrow> nat \<Rightarrow> nat \<Rightarrow> 'a \<Rightarrow> 'a list" where
  "adjust_heap cmp h holeIndex len v =
     (let (h1, secondChild) = adjust_heap_loop cmp h len holeIndex in
      if len mod 2 = 0 \<and> secondChild = (len - 2) div 2
      then push_heap_loop cmp (h1[secondChild := h1 ! (2 * (secondChild + 1) - 1)])
             (2 * (secondChild + 1) - 1) holeIndex v
      else push_heap_loop cmp h1 secondChild holeIndex v)"

definition pop_heap :: "('a \<Rightarrow> 'a \<Rightarrow> bool) \<Rightarrow> 'a list \<Rightarrow> 'a list" where
  "pop_heap cmp h =
     (if length h > 1
      then adjust_heap cmp (h[length h - 1 := h ! 0]) 0 (length h - 1) (h ! (length h - 1))
      else h)"

definition pq_push :: "('a \<Rightarrow> 'a \<Rightarrow> bool) \<Rightarrow> 'a list \<Rightarrow> 'a \<Rightarrow> 'a list" where
  "pq_push cmp c x = push_heap cmp (c @ [x])"

definition pq_pop :: "('a \<Rightarrow> 'a \<Rightarrow> bool) \<Rightarrow> 'a list \<Rightarrow> 'a list" where
  "pq_pop cmp c = butlast (pop_heap cmp c)"

lemma length_push_heap_loop [simp]: "length (push_heap_loop cmp h i t v) = length h"
  by (induction cmp h i t v rule: push_heap_loop.induct) (subst push_heap_loop.simps, simp)

lemma length_adjust_heap_loop [simp]: "length (fst (adjust_heap_loop cmp h len c)) = length h"
  by (induction cmp h len c rule: adjust_heap_loop.induct)
     (subst adjust_heap_loop.simps, simp add: Let_def)

lemma length_pq_pop [simp]: "length (pq_pop cmp h) = length h - 1"
  by (simp add: pq_pop_def pop_heap_def adjust_heap_def split_beta Let_def)

subsubsection \<open>The search\<close>

text \<open>
  The locals of \<^verbatim>\<open>aStarSearch\<close>. \<open>closedSet\<close> is indexed at the cell of a node or at
  a cell that passed \<open>isValid\<close>; it is a function on cells, and the one index that the
  source does not check, the cell read out of the popped node, is checked in the loop
  below. \<open>expanded\<close> is a history variable, absent from the source and read by no
  branch: the nodes marked as visited, in that order.
\<close>

record astate =
  allNodes :: "cell \<Rightarrow> Node"
  closedSet :: "cell \<Rightarrow> bool"
  openSet :: "cell list"
  expanded :: "cell list"

definition grid_at :: "int list list \<Rightarrow> int \<Rightarrow> int \<Rightarrow> error + int" where
  "grid_at grid r c =
     (if 0 \<le> r \<and> r < int (length grid) \<and> 0 \<le> c \<and> c < int (length (grid ! nat r))
      then Inr (grid ! nat r ! nat c) else Inl OutOfBounds)"

definition dRow :: "int list" where
  "dRow = [-1, 1, 0, 0]"

definition dCol :: "int list" where
  "dCol = [0, 0, -1, 1]"

text \<open>Lines 122 to 131: the relaxation of the neighbor (nr, nc) of \<open>current\<close>.\<close>

definition relax :: "int \<Rightarrow> int \<Rightarrow> cell \<Rightarrow> int \<Rightarrow> int \<Rightarrow> astate \<Rightarrow> astate" where
  "relax goalRow goalCol current nr nc st =
     (let neighbor = (nr, nc);
          tentativeGCost = fadd (gCost (allNodes st current)) 1
      in if tentativeGCost < gCost (allNodes st neighbor) \<or> parent (allNodes st neighbor) = None
         then (let h = heuristicManhattan nr nc goalRow goalCol;
                   nodes' = (allNodes st)(neighbor := (allNodes st neighbor)
                      \<lparr>gCost := tentativeGCost, hCost := h, fCost := fadd tentativeGCost h,
                       parent := Some current\<rparr>)
               in st\<lparr>allNodes := nodes',
                     openSet := pq_push (CompareFCost nodes') (openSet st) neighbor\<rparr>)
         else st)"

text \<open>The \<^verbatim>\<open>for\<close> loop over the four directions (lines 114 to 132).\<close>

fun explore :: "int list list \<Rightarrow> int \<Rightarrow> int \<Rightarrow> int \<Rightarrow> int \<Rightarrow> cell \<Rightarrow> nat list \<Rightarrow> astate \<Rightarrow> error + astate" where
  "explore grid rows cols goalRow goalCol current [] st = Inr st"
| "explore grid rows cols goalRow goalCol current (i # is) st =
     (let nr = row (allNodes st current) + dRow ! i;
          nc = col (allNodes st current) + dCol ! i
      in if \<not> isValid nr nc rows cols then explore grid rows cols goalRow goalCol current is st
         else (case grid_at grid nr nc of
                 Inl e \<Rightarrow> Inl e
               | Inr g \<Rightarrow>
                   if g = 1 then explore grid rows cols goalRow goalCol current is st
                   else if closedSet st (nr, nc)
                   then explore grid rows cols goalRow goalCol current is st
                   else explore grid rows cols goalRow goalCol current is
                          (relax goalRow goalCol current nr nc st)))"

text \<open>
  The reconstruction loop (lines 96 to 100) follows \<open>parent\<close> until it is \<^verbatim>\<open>nullptr\<close>.
  Nothing in the loop itself bounds it: \<open>None\<close> is the loop that never ends.
\<close>

partial_function (option) reconstruct :: "(cell \<Rightarrow> Node) \<Rightarrow> cell option \<Rightarrow> cell list \<Rightarrow> cell list option" where
  "reconstruct nodes temp path =
     (case temp of
        None \<Rightarrow> Some path
      | Some t \<Rightarrow> reconstruct nodes (parent (nodes t)) (path @ [(row (nodes t), col (nodes t))]))"

declare reconstruct.simps [code]

lemma closedSet_relax [simp]: "closedSet (relax gr gc cur nr nc st) = closedSet st"
  by (simp add: relax_def Let_def)

lemma closedSet_explore:
  "explore grid rows cols gr gc cur is st = Inr st' \<Longrightarrow> closedSet st' = closedSet st"
  by (induction "is" arbitrary: st) (auto simp: Let_def split: if_splits sum.splits)

definition unclosed :: "int \<Rightarrow> int \<Rightarrow> (cell \<Rightarrow> bool) \<Rightarrow> cell set" where
  "unclosed rows cols cl = {c. isValid (fst c) (snd c) rows cols \<and> \<not> cl c}"

lemma finite_unclosed [simp]: "finite (unclosed rows cols cl)"
proof -
  have "unclosed rows cols cl \<subseteq> {0..<rows} \<times> {0..<cols}"
    by (auto simp: unclosed_def isValid_def)
  then show ?thesis by (rule finite_subset) simp
qed

lemma unclosed_close:
  assumes "isValid r c rows cols" "\<not> cl (r, c)"
  shows "card (unclosed rows cols (cl((r, c) := True))) < card (unclosed rows cols cl)"
proof (rule psubset_card_mono)
  show "finite (unclosed rows cols cl)" by simp
  have "(r, c) \<in> unclosed rows cols cl" using assms by (simp add: unclosed_def)
  moreover have "(r, c) \<notin> unclosed rows cols (cl((r, c) := True))" by (simp add: unclosed_def)
  moreover have "unclosed rows cols (cl((r, c) := True)) \<subseteq> unclosed rows cols cl"
    by (auto simp: unclosed_def)
  ultimately show "unclosed rows cols (cl((r, c) := True)) \<subset> unclosed rows cols cl" by blast
qed

text \<open>
  The \<^verbatim>\<open>while\<close> loop (lines 81 to 133). It returns the path together with the state
  it ends in; the source returns the path. Every round either only pops, or marks a
  cell of the grid that was not marked: the loop ends on every state, up to the
  reconstruction inside it.
\<close>

function aStar_loop :: "int list list \<Rightarrow> int \<Rightarrow> int \<Rightarrow> cell \<Rightarrow> int \<Rightarrow> int \<Rightarrow> astate \<Rightarrow> (error + cell list \<times> astate) option" where
  "aStar_loop grid rows cols goalNode goalRow goalCol st =
     (if openSet st = [] then Some (Inr ([], st))
      else
        let current = hd (openSet st);
            st1 = st\<lparr>openSet := pq_pop (CompareFCost (allNodes st)) (openSet st)\<rparr>;
            r = row (allNodes st1 current);
            c = col (allNodes st1 current)
        in if \<not> isValid r c rows cols then Some (Inl OutOfBounds)
           else if closedSet st1 (r, c)
           then aStar_loop grid rows cols goalNode goalRow goalCol st1
           else
             let st2 = st1\<lparr>closedSet := (closedSet st1)((r, c) := True),
                          expanded := expanded st1 @ [current]\<rparr>
             in if current = goalNode
                then map_option (\<lambda>path. Inr (rev path, st2))
                       (reconstruct (allNodes st2) (Some goalNode) [])
                else (case explore grid rows cols goalRow goalCol current [0, 1, 2, 3] st2 of
                        Inl e \<Rightarrow> Some (Inl e)
                      | Inr st3 \<Rightarrow> aStar_loop grid rows cols goalNode goalRow goalCol st3))"
  by pat_completeness auto
termination
proof (relation "inv_image (less_than <*lex*> less_than)
         (\<lambda>(grid, rows, cols, goalNode, goalRow, goalCol, st).
            (card (unclosed rows cols (closedSet st)), length (openSet st)))", goal_cases)
  case 1
  show ?case by (simp add: wf_inv_image wf_lex_prod)
next
  case (2 grid rows cols goalNode goalRow goalCol st)
  then show ?case by (cases "openSet st") auto
next
  case (3 grid rows cols goalNode goalRow goalCol st x xa xb xc xd xe)
  then show ?case
    by (auto dest!: closedSet_explore simp: unclosed_close simp del: explore.simps)
qed

declare aStar_loop.simps [simp del]

text \<open>
  The state at the head of the first round (lines 55 to 73): a fresh node for every
  cell, nothing visited, the start node alone in the open set.
\<close>

definition aStar_init :: "int \<Rightarrow> int \<Rightarrow> int \<Rightarrow> int \<Rightarrow> astate" where
  "aStar_init startRow startCol goalRow goalCol =
     (let nodes0 = (\<lambda>(r, c). new_Node r c);
          startNode = (startRow, startCol);
          h = heuristicManhattan startRow startCol goalRow goalCol;
          nodes1 = nodes0(startNode := (nodes0 startNode)\<lparr>gCost := 0, hCost := h, fCost := fadd 0 h\<rparr>)
      in \<lparr>allNodes = nodes1, closedSet = (\<lambda>_. False),
          openSet = pq_push (CompareFCost nodes1) [] startNode, expanded = []\<rparr>)"

text \<open>
  \<^verbatim>\<open>aStarSearch\<close> up to its \<^verbatim>\<open>return\<close>. The index expressions before the loop are
  \<^verbatim>\<open>grid[0]\<close> (line 52), \<^verbatim>\<open>allNodes[startRow][startCol]\<close> (line 69) and
  \<^verbatim>\<open>allNodes[goalRow][goalCol]\<close> (line 79); the source checks none of them.
\<close>

definition aStarSearch_run :: "int list list \<Rightarrow> int \<Rightarrow> int \<Rightarrow> int \<Rightarrow> int \<Rightarrow> (error + cell list \<times> astate) option" where
  "aStarSearch_run grid startRow startCol goalRow goalCol =
     (if grid = [] then Some (Inl OutOfBounds)
      else
        let rows = int (length grid);
            cols = int (length (grid ! 0))
        in if \<not> isValid startRow startCol rows cols then Some (Inl OutOfBounds)
           else if \<not> isValid goalRow goalCol rows cols then Some (Inl OutOfBounds)
           else aStar_loop grid rows cols (goalRow, goalCol) goalRow goalCol
                  (aStar_init startRow startCol goalRow goalCol))"

definition aStarSearch :: "int list list \<Rightarrow> int \<Rightarrow> int \<Rightarrow> int \<Rightarrow> int \<Rightarrow> (error + cell list) option" where
  "aStarSearch grid startRow startCol goalRow goalCol =
     map_option (map_sum id fst) (aStarSearch_run grid startRow startCol goalRow goalCol)"

subsection \<open>Paths in a grid\<close>

text \<open>
  A cell is an obstacle when the grid holds 1 there (line 119); every other cell
  inside the grid can be walked on.
\<close>

definition walkable :: "int list list \<Rightarrow> cell \<Rightarrow> bool" where
  "walkable grid c =
     (0 \<le> fst c \<and> fst c < int (length grid) \<and> 0 \<le> snd c \<and>
      snd c < int (length (grid ! nat (fst c))) \<and> grid ! nat (fst c) ! nat (snd c) \<noteq> 1)"

definition orthogonal_step :: "cell \<Rightarrow> cell \<Rightarrow> bool" where
  "orthogonal_step a b = (\<bar>fst a - fst b\<bar> + \<bar>snd a - snd b\<bar> = 1)"

definition grid_path :: "int list list \<Rightarrow> cell \<Rightarrow> cell \<Rightarrow> cell list \<Rightarrow> bool" where
  "grid_path grid start goal p =
     (p \<noteq> [] \<and> hd p = start \<and> last p = goal \<and> list_all (walkable grid) p \<and>
      successively orthogonal_step p)"


section \<open>Invariants and examples\<close>

text \<open>
  The graph of the example run in the comment of \<^verbatim>\<open>main\<close> in
  \<^verbatim>\<open>src/dijkstra.cpp\<close>: five
  vertices, six undirected edges, each stored in both directions.
\<close>

definition example_graph :: graph where
  "example_graph =
     [[(1, 4), (2, 2)], [(0, 4), (2, 3), (3, 2)], [(0, 2), (1, 3), (3, 4)],
      [(1, 2), (2, 4), (4, 1)], [(3, 1)]]"

text \<open>A grid of three rows with one obstacle in the middle.\<close>

definition example_grid :: "int list list" where
  "example_grid = [[0, 0, 0], [0, 1, 0], [0, 0, 0]]"

text \<open>
  A grid of three rows and seven columns on which the search from (1, 1) to (2, 6)
  lowers the cost of a node that is waiting in the open set.
\<close>

definition detour_grid :: "int list list" where
  "detour_grid = [[0, 0, 0, 0, 0, 0, 0], [0, 0, 1, 0, 0, 1, 0], [1, 0, 0, 0, 0, 1, 0]]"

text \<open>
  The invariant of the loops of \<^verbatim>\<open>dijkstra\<close> on a graph with non-negative weights.
  While the edges of u are relaxed, \<open>es\<close> is the part of the edge list of u that is
  still to come; at the head of the outer loop it is empty. Every entry of the queue
  carries a key at least the distance of its vertex; every vertex with a distance is
  settled or has an entry with exactly its distance, and then only one; the settled
  vertices are pairwise different, in the order of their distances, none above a key
  in the queue, with no current entry of their own, and every edge out of them that
  is not still to come has been relaxed; every distance below \<open>INT_MAX\<close> is the
  weight of a path from the source.
\<close>

definition dinv :: "int \<Rightarrow> graph \<Rightarrow> int \<Rightarrow> int \<Rightarrow> (int \<times> int) list \<Rightarrow> dstate \<Rightarrow> bool" where
  "dinv n g s u es st =
    (length (dist st) = nat n \<and>
     (0 \<le> s \<and> s < n \<and> dist st ! nat s = 0) \<and>
     (\<forall>v. 0 \<le> v \<and> v < n \<longrightarrow> 0 \<le> dist st ! nat v \<and> dist st ! nat v \<le> INT_MAX) \<and>
     (\<forall>e \<in> set (pq st). 0 \<le> snd e \<and> snd e < n \<and> dist st ! nat (snd e) \<le> fst e \<and> fst e < INT_MAX) \<and>
     (\<forall>v. 0 \<le> v \<and> v < n \<and> dist st ! nat v < INT_MAX \<longrightarrow>
          v \<in> set (settled st) \<or> (dist st ! nat v, v) \<in> set (pq st)) \<and>
     (\<forall>x \<in> set (settled st). 0 \<le> x \<and> x < n \<and>
          (\<forall>e \<in> set (g ! nat x). (x = u \<and> e \<in> set es) \<or>
                 dist st ! nat (fst e) \<le> dist st ! nat x + snd e)) \<and>
     (\<forall>x \<in> set (settled st). \<forall>e \<in> set (pq st). dist st ! nat x \<le> fst e) \<and>
     sorted (map (\<lambda>x. dist st ! nat x) (settled st)) \<and>
     distinct (settled st) \<and>
     (\<forall>x \<in> set (settled st). (dist st ! nat x, x) \<notin> set (pq st)) \<and>
     (\<forall>v. 0 \<le> v \<and> v < n \<longrightarrow> count_list (pq st) (dist st ! nat v, v) \<le> 1) \<and>
     (\<forall>v. 0 \<le> v \<and> v < n \<and> dist st ! nat v < INT_MAX \<longrightarrow>
          (\<exists>p. is_path g s p v \<and> path_weight p = dist st ! nat v)))"

text \<open>
  With all weights at most W, a distance is at most W times the number of vertices
  settled so far, and the distance of the i-th settled vertex at most i times W.
\<close>

definition dbound :: "int \<Rightarrow> dstate \<Rightarrow> bool" where
  "dbound W st =
     (0 \<le> W \<and>
      (\<forall>v. 0 \<le> v \<and> nat v < length (dist st) \<and> dist st ! nat v < INT_MAX \<longrightarrow>
           dist st ! nat v \<le> int (length (settled st)) * W) \<and>
      (\<forall>i < length (settled st). dist st ! nat (settled st ! i) \<le> int i * W))"



text \<open>
  The invariant of the loops of \<^verbatim>\<open>aStarSearch\<close> for the start cell s. The fields
  \<open>row\<close> and \<open>col\<close> of a node are its cell; the open set holds cells of the grid
  that are s or have a parent; \<open>expanded\<close> lists the visited cells once each; s is
  visited before anything else leaves the open set and never gets a parent; a parent
  is a visited cell one orthogonal step away from a walkable cell; the parent of a
  visited cell other than s was visited before it.
\<close>

definition astar_inv :: "int list list \<Rightarrow> int \<Rightarrow> int \<Rightarrow> cell \<Rightarrow> astate \<Rightarrow> bool" where
  "astar_inv grid rows cols s st =
     ((\<forall>c. row (allNodes st c) = fst c \<and> col (allNodes st c) = snd c) \<and>
      (\<forall>c \<in> set (openSet st). isValid (fst c) (snd c) rows cols \<and>
                                (c = s \<or> parent (allNodes st c) \<noteq> None)) \<and>
      distinct (expanded st) \<and>
      (\<forall>c. closedSet st c \<longleftrightarrow> c \<in> set (expanded st)) \<and>
      (\<not> closedSet st s \<longrightarrow> set (openSet st) \<subseteq> {s}) \<and>
      parent (allNodes st s) = None \<and>
      (\<forall>c p. parent (allNodes st c) = Some p \<longrightarrow>
               closedSet st p \<and> orthogonal_step p c \<and> walkable grid c) \<and>
      (\<forall>i < length (expanded st). expanded st ! i = s \<or>
          (\<exists>j < i. parent (allNodes st (expanded st ! i)) = Some (expanded st ! j))))"

text \<open>
  What the invariant gives for a returned path, and the grids on which every cell that
  passes \<open>isValid\<close> can be read.
\<close>

definition path_ok :: "int list list \<Rightarrow> cell \<Rightarrow> cell \<Rightarrow> cell list \<Rightarrow> bool" where
  "path_ok grid s goal path =
     (hd path = s \<and> last path = goal \<and> distinct path \<and> successively orthogonal_step path \<and>
      (\<forall>c \<in> set path. c = s \<or> walkable grid c))"

definition grid_total :: "int list list \<Rightarrow> int \<Rightarrow> int \<Rightarrow> bool" where
  "grid_total grid rows cols = (\<forall>r c. isValid r c rows cols \<longrightarrow> (\<exists>g. grid_at grid r c = Inr g))"

section \<open>Lemmas\<close>

subsection \<open>The heap algorithms keep the elements\<close>

lemma mset_update_swap:
  assumes "i < length h" "j < length h"
  shows "mset (h[i := h ! j, j := v]) = mset (h[i := v])"
proof (cases "i = j")
  case True
  then show ?thesis by simp
next
  case False
  with assms show ?thesis by (simp add: mset_update nth_list_update)
qed

lemma mset_push_heap_loop:
  "i < length h \<Longrightarrow> mset (push_heap_loop cmp h i t v) = mset (h[i := v])"
proof (induction cmp h i t v rule: push_heap_loop.induct)
  case (1 cmp h i t v)
  show ?case
  proof (cases "i > t \<and> cmp (h ! ((i - 1) div 2)) v")
    case True
    let ?p = "(i - 1) div 2"
    from True 1(2) have p: "?p < length h" by simp
    have "mset (push_heap_loop cmp h i t v) = mset (push_heap_loop cmp (h[i := h ! ?p]) ?p t v)"
      using True by (subst push_heap_loop.simps) simp
    also have "\<dots> = mset (h[i := h ! ?p, ?p := v])"
      using 1(1)[OF True] p by simp
    also have "\<dots> = mset (h[i := v])"
      using 1(2) p by (rule mset_update_swap)
    finally show ?thesis .
  next
    case False
    then show ?thesis by (subst push_heap_loop.simps) auto
  qed
qed

lemma mset_pq_push: "mset (pq_push cmp c x) = add_mset x (mset c)"
  by (simp add: pq_push_def push_heap_def mset_push_heap_loop)

lemma set_pq_push: "set (pq_push cmp c x) = insert x (set c)"
  by (metis mset_pq_push set_mset_add_mset_insert set_mset_mset)

lemma adjust_heap_loop_props:
  "c < length h \<Longrightarrow> len \<le> length h \<Longrightarrow>
   (case adjust_heap_loop cmp h len c of (h1, c1) \<Rightarrow>
      c1 < length h \<and> length h1 = length h \<and> mset (h1[c1 := v]) = mset (h[c := v]))"
proof (induction cmp h len c rule: adjust_heap_loop.induct)
  case (1 cmp h len c)
  show ?case
  proof (cases "c < (len - 1) div 2")
    case True
    define c2 where "c2 = 2 * (c + 1)"
    define c' where "c' = (if cmp (h ! c2) (h ! (c2 - 1)) then c2 - 1 else c2)"
    from True 1(3) have c2: "c2 < length h" by (simp add: c2_def)
    then have c': "c' < length h" by (auto simp: c'_def)
    have eq: "adjust_heap_loop cmp h len c = adjust_heap_loop cmp (h[c := h ! c']) len c'"
      using True by (subst adjust_heap_loop.simps) (simp add: Let_def c2_def c'_def)
    have IH: "case adjust_heap_loop cmp (h[c := h ! c']) len c' of (h1, c1) \<Rightarrow>
      c1 < length (h[c := h ! c']) \<and> length h1 = length (h[c := h ! c']) \<and>
      mset (h1[c1 := v]) = mset (h[c := h ! c', c' := v])"
      using 1(1)[OF True c2_def c'_def] c' 1(3) by simp
    have "mset (h[c := h ! c', c' := v]) = mset (h[c := v])"
      using 1(2) c' by (rule mset_update_swap)
    with IH eq show ?thesis by (auto split: prod.splits)
  next
    case False
    then show ?thesis using 1(2) by (subst adjust_heap_loop.simps) simp
  qed
qed

lemma mset_adjust_heap:
  assumes "len \<le> length h" "0 < len"
  shows "mset (adjust_heap cmp h 0 len v) = mset (h[0 := v])"
proof -
  obtain h1 c1 where r: "adjust_heap_loop cmp h len 0 = (h1, c1)" by (cases "adjust_heap_loop cmp h len 0")
  from assms have "0 < length h" by (cases h) auto
  from adjust_heap_loop_props[OF this assms(1), where cmp=cmp and v=v] r
  have p: "c1 < length h" "length h1 = length h" "mset (h1[c1 := v]) = mset (h[0 := v])" by auto
  show ?thesis
  proof (cases "len mod 2 = 0 \<and> c1 = (len - 2) div 2")
    case True
    let ?k = "2 * (c1 + 1) - 1"
    from True assms have k: "?k < length h" by auto
    have "mset (adjust_heap cmp h 0 len v) = mset (push_heap_loop cmp (h1[c1 := h1 ! ?k]) ?k 0 v)"
      using True r by (simp add: adjust_heap_def)
    also have "\<dots> = mset (h1[c1 := h1 ! ?k, ?k := v])"
      using k p by (simp add: mset_push_heap_loop)
    also have "\<dots> = mset (h1[c1 := v])"
      using k p by (intro mset_update_swap) auto
    finally show ?thesis using p by simp
  next
    case False
    then have "mset (adjust_heap cmp h 0 len v) = mset (push_heap_loop cmp h1 c1 0 v)"
      using r by (auto simp add: adjust_heap_def)
    then show ?thesis using p by (simp add: mset_push_heap_loop)
  qed
qed

lemma mset_pop_heap: "mset (pop_heap cmp h) = mset h"
proof (cases "length h > 1")
  case True
  let ?n = "length h - 1"
  have "mset (pop_heap cmp h) = mset ((h[?n := h ! 0])[0 := h ! ?n])"
    using True by (simp add: pop_heap_def mset_adjust_heap)
  also have "\<dots> = mset h"
    using mset_update_swap[of "length h - 1" h 0 "h ! (length h - 1)"] True
    by (cases "h = []") auto
  finally show ?thesis .
next
  case False
  then show ?thesis by (simp add: pop_heap_def)
qed

lemma set_pq_pop: "set (pq_pop cmp h) \<subseteq> set h"
proof -
  have "set (pq_pop cmp h) \<subseteq> set (pop_heap cmp h)"
    by (auto simp: pq_pop_def dest: in_set_butlastD)
  also have "\<dots> = set h" by (metis mset_pop_heap set_mset_mset)
  finally show ?thesis .
qed

lemma pq_push_Nil: "pq_push cmp [] x = [x]"
  by (simp add: pq_push_def push_heap_def push_heap_loop.simps)

lemma pq_pop_single: "pq_pop cmp [x] = []"
  by (simp add: pq_pop_def pop_heap_def)

subsection \<open>Whole numbers that need no rounding\<close>

lemma float_ulp_one: "m < 16777216 \<Longrightarrow> float_ulp m 1 = 1"
  by (subst float_ulp.simps) simp

lemma float_ulp_two: "float_ulp 16777216 1 = 2"
  by (subst float_ulp.simps, subst float_ulp.simps) simp

lemma float_round_exact:
  assumes "\<bar>x\<bar> \<le> 16777216"
  shows "float_round x = x"
proof (cases "\<bar>x\<bar> = 16777216")
  case True
  then have "float_round x = sgn x * 16777216"
    by (simp add: float_round_def float_ulp_two Let_def)
  also from True have "\<dots> = x" by (simp add: sgn_if abs_if split: if_splits)
  finally show ?thesis .
next
  case False
  with assms have "\<bar>x\<bar> < 16777216" by simp
  then have "float_round x = sgn x * \<bar>x\<bar>"
    by (simp add: float_round_def float_ulp_one Let_def)
  then show ?thesis by (simp add: mult_sgn_abs)
qed

lemma fadd_exact: "\<bar>a + b\<bar> \<le> 16777216 \<Longrightarrow> fadd a b = a + b"
  by (simp add: fadd_def float_round_exact)

subsection \<open>The A* invariant\<close>

lemma astar_invD:
  assumes "astar_inv grid rows cols s st"
  shows "row (allNodes st c) = fst c" and "col (allNodes st c) = snd c"
    and "c \<in> set (openSet st) \<Longrightarrow> isValid (fst c) (snd c) rows cols"
    and "c \<in> set (openSet st) \<Longrightarrow> c = s \<or> parent (allNodes st c) \<noteq> None"
    and "distinct (expanded st)"
    and "closedSet st c \<longleftrightarrow> c \<in> set (expanded st)"
    and "\<not> closedSet st s \<Longrightarrow> set (openSet st) \<subseteq> {s}"
    and "parent (allNodes st s) = None"
    and "parent (allNodes st c) = Some p \<Longrightarrow> closedSet st p \<and> orthogonal_step p c \<and> walkable grid c"
    and "i < length (expanded st) \<Longrightarrow> expanded st ! i = s \<or>
          (\<exists>j < i. parent (allNodes st (expanded st ! i)) = Some (expanded st ! j))"
  using assms unfolding astar_inv_def by blast+

lemma astar_invI:
  assumes "\<And>c. row (allNodes st c) = fst c \<and> col (allNodes st c) = snd c"
    and "\<And>c. c \<in> set (openSet st) \<Longrightarrow> isValid (fst c) (snd c) rows cols \<and>
                                (c = s \<or> parent (allNodes st c) \<noteq> None)"
    and "distinct (expanded st)"
    and "\<And>c. closedSet st c \<longleftrightarrow> c \<in> set (expanded st)"
    and "\<not> closedSet st s \<Longrightarrow> set (openSet st) \<subseteq> {s}"
    and "parent (allNodes st s) = None"
    and "\<And>c p. parent (allNodes st c) = Some p \<Longrightarrow>
               closedSet st p \<and> orthogonal_step p c \<and> walkable grid c"
    and "\<And>i. i < length (expanded st) \<Longrightarrow> expanded st ! i = s \<or>
          (\<exists>j < i. parent (allNodes st (expanded st ! i)) = Some (expanded st ! j))"
  shows "astar_inv grid rows cols s st"
  using assms unfolding astar_inv_def by blast

lemma astar_inv_init:
  "isValid sr sc rows cols \<Longrightarrow> astar_inv grid rows cols (sr, sc) (aStar_init sr sc gr gc)"
  by (rule astar_invI)
     (auto simp: aStar_init_def Let_def pq_push_Nil new_Node_def split_beta split: if_splits)

lemma astar_inv_pop:
  assumes inv: "astar_inv grid rows cols s st"
  shows "astar_inv grid rows cols s (st\<lparr>openSet := pq_pop cmp (openSet st)\<rparr>)"
proof (rule astar_invI)
  have sub: "set (pq_pop cmp (openSet st)) \<subseteq> set (openSet st)" by (rule set_pq_pop)
  note D = astar_invD[OF inv]
  let ?st' = "st\<lparr>openSet := pq_pop cmp (openSet st)\<rparr>"
  show "row (allNodes ?st' c) = fst c \<and> col (allNodes ?st' c) = snd c" for c
    using D(1,2) by simp
  show "isValid (fst c) (snd c) rows cols \<and> (c = s \<or> parent (allNodes ?st' c) \<noteq> None)"
    if "c \<in> set (openSet ?st')" for c
    using that sub D(3,4)[of c] by auto
  show "distinct (expanded ?st')" using D(5) by simp
  show "closedSet ?st' c \<longleftrightarrow> c \<in> set (expanded ?st')" for c using D(6) by simp
  show "set (openSet ?st') \<subseteq> {s}" if "\<not> closedSet ?st' s" using that D(7) sub by auto
  show "parent (allNodes ?st' s) = None" using D(8) by simp
  show "closedSet ?st' p \<and> orthogonal_step p c \<and> walkable grid c"
    if "parent (allNodes ?st' c) = Some p" for c p using that D(9) by simp
  show "expanded ?st' ! i = s \<or>
          (\<exists>j < i. parent (allNodes ?st' (expanded ?st' ! i)) = Some (expanded ?st' ! j))"
    if "i < length (expanded ?st')" for i using that D(10) by simp
qed

lemma astar_inv_close:
  assumes inv: "astar_inv grid rows cols s st"
    and ne: "openSet st \<noteq> []"
    and nc: "\<not> closedSet st (hd (openSet st))"
  shows "astar_inv grid rows cols s
           (st\<lparr>openSet := pq_pop cmp (openSet st),
               closedSet := (closedSet st)(hd (openSet st) := True),
               expanded := expanded st @ [hd (openSet st)]\<rparr>)"
    (is "astar_inv _ _ _ _ ?st'")
proof (rule astar_invI)
  let ?cur = "hd (openSet st)"
  note D = astar_invD[OF inv]
  have sub: "set (pq_pop cmp (openSet st)) \<subseteq> set (openSet st)" by (rule set_pq_pop)
  from ne have cur_in: "?cur \<in> set (openSet st)" by simp
  have cur_new: "?cur \<notin> set (expanded st)" using D(6)[of ?cur] nc by simp
  show "row (allNodes ?st' c) = fst c \<and> col (allNodes ?st' c) = snd c" for c
    using D(1,2)[of c] by simp
  show "isValid (fst c) (snd c) rows cols \<and> (c = s \<or> parent (allNodes ?st' c) \<noteq> None)"
    if "c \<in> set (openSet ?st')" for c
  proof -
    from that sub have "c \<in> set (openSet st)" by auto
    with D(3,4)[of c] show ?thesis by simp
  qed
  show "distinct (expanded ?st')" using D(5) cur_new by simp
  show "closedSet ?st' c \<longleftrightarrow> c \<in> set (expanded ?st')" for c using D(6)[of c] by auto
  show "set (openSet ?st') \<subseteq> {s}" if "\<not> closedSet ?st' s"
  proof -
    from that have "\<not> closedSet st s" by (simp split: if_splits)
    from D(7)[OF this] sub show ?thesis by auto
  qed
  show "parent (allNodes ?st' s) = None" using D(8) by simp
  show "closedSet ?st' p \<and> orthogonal_step p c \<and> walkable grid c"
    if "parent (allNodes ?st' c) = Some p" for c p using that D(9)[of c p] by simp
  show "expanded ?st' ! i = s \<or>
          (\<exists>j < i. parent (allNodes ?st' (expanded ?st' ! i)) = Some (expanded ?st' ! j))"
    if i: "i < length (expanded ?st')" for i
  proof (cases "i < length (expanded st)")
    case True
    from D(10)[OF True] show ?thesis
    proof
      assume "expanded st ! i = s"
      with True show ?thesis by (simp add: nth_append)
    next
      assume "\<exists>j<i. parent (allNodes st (expanded st ! i)) = Some (expanded st ! j)"
      then obtain j where "j < i" "parent (allNodes st (expanded st ! i)) = Some (expanded st ! j)"
        by blast
      with True have "j < i \<and> parent (allNodes ?st' (expanded ?st' ! i)) = Some (expanded ?st' ! j)"
        by (simp add: nth_append)
      then show ?thesis by blast
    qed
  next
    case False
    with i have ieq: "i = length (expanded st)" by simp
    show ?thesis
    proof (cases "?cur = s")
      case True
      with ieq show ?thesis by simp
    next
      case False
      with D(4)[OF cur_in] obtain p where p: "parent (allNodes st ?cur) = Some p" by auto
      from D(9)[OF p] have "closedSet st p" by blast
      with D(6)[of p] have "p \<in> set (expanded st)" by simp
      then obtain j where j: "j < length (expanded st)" "expanded st ! j = p"
        by (auto simp: in_set_conv_nth)
      with p ieq have "j < i \<and> parent (allNodes ?st' (expanded ?st' ! i)) = Some (expanded ?st' ! j)"
        by (simp add: nth_append)
      then show ?thesis by blast
    qed
  qed
qed

lemma astar_inv_relax:
  assumes inv: "astar_inv grid rows cols s st"
    and ccur: "closedSet st cur" and cs: "closedSet st s"
    and valid: "isValid nr nc rows cols" and walk: "walkable grid (nr, nc)"
    and nclosed: "\<not> closedSet st (nr, nc)" and step: "orthogonal_step cur (nr, nc)"
  shows "astar_inv grid rows cols s (relax gr gc cur nr nc st)"
proof (cases "fadd (gCost (allNodes st cur)) 1 < gCost (allNodes st (nr, nc)) \<or>
              parent (allNodes st (nr, nc)) = None")
  case False
  then show ?thesis using inv by (auto simp: relax_def Let_def)
next
  case True
  let ?n = "(nr, nc)"
  define nodes' where "nodes' = (allNodes st)(?n := (allNodes st ?n)
      \<lparr>gCost := fadd (gCost (allNodes st cur)) 1, hCost := heuristicManhattan nr nc gr gc,
       fCost := fadd (fadd (gCost (allNodes st cur)) 1) (heuristicManhattan nr nc gr gc),
       parent := Some cur\<rparr>)"
  let ?st' = "st\<lparr>allNodes := nodes', openSet := pq_push (CompareFCost nodes') (openSet st) ?n\<rparr>"
  have eq: "relax gr gc cur nr nc st = ?st'"
    using True by (auto simp: relax_def Let_def nodes'_def)
  note D = astar_invD[OF inv]
  from cs nclosed have ns: "?n \<noteq> s" by auto
  have other: "\<And>c. c \<noteq> ?n \<Longrightarrow> nodes' c = allNodes st c" by (simp add: nodes'_def)
  have pn: "parent (nodes' ?n) = Some cur" by (simp add: nodes'_def)
  have rn: "row (nodes' ?n) = row (allNodes st ?n)" "col (nodes' ?n) = col (allNodes st ?n)"
    by (simp_all add: nodes'_def)
  have "astar_inv grid rows cols s ?st'"
  proof (rule astar_invI)
    show "row (allNodes ?st' c) = fst c \<and> col (allNodes ?st' c) = snd c" for c
      using D(1,2)[of c] rn other[of c] by (cases "c = ?n") auto
    show "isValid (fst c) (snd c) rows cols \<and> (c = s \<or> parent (allNodes ?st' c) \<noteq> None)"
      if "c \<in> set (openSet ?st')" for c
    proof (cases "c = ?n")
      case True
      with valid pn show ?thesis by simp
    next
      case False
      with that have "c \<in> set (openSet st)" by (simp add: set_pq_push)
      with D(3,4)[of c] other[OF False] show ?thesis by auto
    qed
    show "distinct (expanded ?st')" using D(5) by simp
    show "closedSet ?st' c \<longleftrightarrow> c \<in> set (expanded ?st')" for c using D(6)[of c] by simp
    show "set (openSet ?st') \<subseteq> {s}" if "\<not> closedSet ?st' s" using that cs by simp
    show "parent (allNodes ?st' s) = None" using D(8) other[of s] ns by simp
    show "closedSet ?st' p \<and> orthogonal_step p c \<and> walkable grid c"
      if "parent (allNodes ?st' c) = Some p" for c p
    proof (cases "c = ?n")
      case True
      with that pn have "p = cur" by simp
      with True ccur step walk show ?thesis by simp
    next
      case False
      with that other[OF False] D(9)[of c p] show ?thesis by simp
    qed
    show "expanded ?st' ! i = s \<or>
          (\<exists>j < i. parent (allNodes ?st' (expanded ?st' ! i)) = Some (expanded ?st' ! j))"
      if i: "i < length (expanded ?st')" for i
    proof -
      from i have "closedSet st (expanded st ! i)" using D(6) by simp
      with nclosed have "expanded st ! i \<noteq> ?n" by auto
      then have "nodes' (expanded st ! i) = allNodes st (expanded st ! i)" by (rule other)
      with D(10)[of i] i show ?thesis by simp
    qed
  qed
  with eq show ?thesis by simp
qed

lemma expanded_relax [simp]: "expanded (relax gr gc cur nr nc st) = expanded st"
  by (simp add: relax_def Let_def)

lemma direction_step:
  "i < 4 \<Longrightarrow> orthogonal_step (r, c) (r + dRow ! i, c + dCol ! i)"
proof -
  assume "i < 4"
  then have "i = 0 \<or> i = 1 \<or> i = 2 \<or> i = 3" by auto
  then show ?thesis by (auto simp: orthogonal_step_def dRow_def dCol_def)
qed

lemma grid_at_walkable: "grid_at grid r c = Inr g \<Longrightarrow> g \<noteq> 1 \<Longrightarrow> walkable grid (r, c)"
  by (auto simp: grid_at_def walkable_def split: if_splits)

lemma astar_inv_explore:
  assumes "explore grid rows cols gr gc cur is st = Inr st'"
    and "astar_inv grid rows cols s st"
    and "closedSet st cur" and "closedSet st s"
    and "\<forall>i \<in> set is. i < 4"
  shows "astar_inv grid rows cols s st' \<and> expanded st' = expanded st"
  using assms
proof (induction "is" arbitrary: st)
  case Nil
  then show ?case by simp
next
  case (Cons i "is")
  let ?nr = "row (allNodes st cur) + dRow ! i"
  let ?nc = "col (allNodes st cur) + dCol ! i"
  from Cons.prems(2) have rc: "row (allNodes st cur) = fst cur" "col (allNodes st cur) = snd cur"
    by (rule astar_invD)+
  from Cons.prems(5) have i4: "i < 4" and rest: "\<forall>i \<in> set is. i < 4" by simp_all
  show ?case
  proof (cases "isValid ?nr ?nc rows cols")
    case False
    with Cons.prems(1) have "explore grid rows cols gr gc cur is st = Inr st'"
      by (simp add: Let_def)
    from Cons.IH[OF this Cons.prems(2,3,4) rest] show ?thesis .
  next
    case True
    with Cons.prems(1) obtain g where g: "grid_at grid ?nr ?nc = Inr g"
      by (auto simp: Let_def split: sum.splits)
    show ?thesis
    proof (cases "g = 1 \<or> closedSet st (?nr, ?nc)")
      case True
      with Cons.prems(1) \<open>isValid ?nr ?nc rows cols\<close> g
      have "explore grid rows cols gr gc cur is st = Inr st'"
        by (auto simp: Let_def split: if_splits)
      from Cons.IH[OF this Cons.prems(2,3,4) rest] show ?thesis .
    next
      case False
      let ?st1 = "relax gr gc cur ?nr ?nc st"
      from False Cons.prems(1) \<open>isValid ?nr ?nc rows cols\<close> g
      have e: "explore grid rows cols gr gc cur is ?st1 = Inr st'"
        by (auto simp: Let_def)
      have step: "orthogonal_step cur (?nr, ?nc)"
        using direction_step[OF i4, of "fst cur" "snd cur"] rc by simp
      have walk: "walkable grid (?nr, ?nc)" using g False by (auto intro: grid_at_walkable)
      have inv1: "astar_inv grid rows cols s ?st1"
        using Cons.prems(2,3,4) \<open>isValid ?nr ?nc rows cols\<close> walk False step
        by (intro astar_inv_relax) auto
      from Cons.IH[OF e inv1] Cons.prems(3,4) rest show ?thesis by simp
    qed
  qed
qed

lemma nth_notin_take:
  assumes "distinct xs" "j < i" "i < length xs"
  shows "xs ! i \<notin> set (take (Suc j) xs)"
proof
  assume "xs ! i \<in> set (take (Suc j) xs)"
  then obtain k where k: "k < length (take (Suc j) xs)" "take (Suc j) xs ! k = xs ! i"
    by (auto simp: in_set_conv_nth)
  then have "k \<le> j" "xs ! k = xs ! i" by auto
  with assms have "k = i" by (simp add: nth_eq_iff_index_eq)
  with \<open>k \<le> j\<close> assms(2) show False by simp
qed

lemma reconstruct_chain:
  assumes inv: "astar_inv grid rows cols s st"
  shows "i < length (expanded st) \<Longrightarrow>
    \<exists>p. reconstruct (allNodes st) (Some (expanded st ! i)) acc = Some (acc @ p) \<and>
        p \<noteq> [] \<and> hd p = expanded st ! i \<and> last p = s \<and>
        set p \<subseteq> set (take (Suc i) (expanded st)) \<and> distinct p \<and>
        successively (\<lambda>a b. orthogonal_step b a) p \<and>
        (\<forall>c \<in> set p. c = s \<or> walkable grid c)"
proof (induction i arbitrary: acc rule: less_induct)
  case (less i)
  note D = astar_invD[OF inv]
  let ?c = "expanded st ! i"
  have unf: "reconstruct (allNodes st) (Some ?c) acc
             = reconstruct (allNodes st) (parent (allNodes st ?c)) (acc @ [?c])"
    by (subst reconstruct.simps) (simp add: D(1,2))
  have ci: "?c \<in> set (take (Suc i) (expanded st))"
    using less.prems by (auto simp: in_set_conv_nth intro!: exI[of _ i])
  from D(10)[OF less.prems] show ?case
  proof
    assume cs: "?c = s"
    have "reconstruct (allNodes st) None (acc @ [?c]) = Some (acc @ [?c])"
      by (subst reconstruct.simps) simp
    with unf D(8) cs have "reconstruct (allNodes st) (Some ?c) acc = Some (acc @ [?c])"
      by simp
    with cs ci show ?thesis by auto
  next
    assume "\<exists>j<i. parent (allNodes st ?c) = Some (expanded st ! j)"
    then obtain j where j: "j < i" and pj: "parent (allNodes st ?c) = Some (expanded st ! j)"
      by blast
    from j less.prems have jl: "j < length (expanded st)" by simp
    from less.IH[OF j jl, of "acc @ [?c]"] obtain p where
      p: "reconstruct (allNodes st) (Some (expanded st ! j)) (acc @ [?c]) = Some ((acc @ [?c]) @ p)"
         "p \<noteq> []" "hd p = expanded st ! j" "last p = s"
         "set p \<subseteq> set (take (Suc j) (expanded st))" "distinct p"
         "successively (\<lambda>a b. orthogonal_step b a) p"
         "\<forall>c \<in> set p. c = s \<or> walkable grid c"
      by blast
    have r: "reconstruct (allNodes st) (Some ?c) acc = Some (acc @ (?c # p))"
      using unf pj p(1) by simp
    have notin: "?c \<notin> set p"
      using nth_notin_take[OF D(5) j less.prems] p(5) by auto
    have sub: "set (take (Suc j) (expanded st)) \<subseteq> set (take (Suc i) (expanded st))"
      using j by (intro set_take_subset_set_take) simp
    from D(9)[OF pj] have st: "orthogonal_step (expanded st ! j) ?c" and w: "walkable grid ?c"
      by simp_all
    have "successively (\<lambda>a b. orthogonal_step b a) (?c # p)"
      using p(2,3,7) st by (simp add: successively_Cons)
    with r p notin sub ci w show ?thesis
      by (intro exI[of _ "?c # p"]) auto
  qed
qed

lemma explore_Inl:
  assumes "grid_total grid rows cols"
  shows "explore grid rows cols gr gc cur is st \<noteq> Inl e"
proof (induction "is" arbitrary: st)
  case Nil
  then show ?case by simp
next
  case (Cons i "is")
  let ?nr = "row (allNodes st cur) + dRow ! i"
  let ?nc = "col (allNodes st cur) + dCol ! i"
  show ?case
  proof (cases "isValid ?nr ?nc rows cols")
    case False
    then show ?thesis using Cons.IH by (simp add: Let_def)
  next
    case True
    with assms obtain g where "grid_at grid ?nr ?nc = Inr g"
      unfolding grid_total_def by blast
    with True show ?thesis using Cons.IH by (simp add: Let_def)
  qed
qed

lemma aStar_loop_correct:
  "astar_inv grid rows cols s st \<Longrightarrow>
   \<exists>r. aStar_loop grid rows cols goal gr gc st = Some r \<and>
       (case r of
          Inl e \<Rightarrow> \<not> grid_total grid rows cols
        | Inr (path, stF) \<Rightarrow>
            astar_inv grid rows cols s stF \<and> (path \<noteq> [] \<longrightarrow> path_ok grid s goal path))"
proof (induction grid rows cols goal gr gc st rule: aStar_loop.induct)
  case (1 grid rows cols goal gr gc st)
  note inv = "1.prems"
  note D = astar_invD[OF inv]
  show ?case
  proof (cases "openSet st = []")
    case True
    then show ?thesis using inv by (subst aStar_loop.simps) simp
  next
    case ne: False
    let ?cur = "hd (openSet st)"
    let ?st1 = "st\<lparr>openSet := pq_pop (CompareFCost (allNodes st)) (openSet st)\<rparr>"
    from ne have cur_in: "?cur \<in> set (openSet st)" by simp
    have rc: "row (allNodes ?st1 ?cur) = fst ?cur" "col (allNodes ?st1 ?cur) = snd ?cur"
      using D(1,2)[of ?cur] by simp_all
    have valid: "isValid (row (allNodes ?st1 ?cur)) (col (allNodes ?st1 ?cur)) rows cols"
      using D(3)[OF cur_in] rc by simp
    have cell: "(row (allNodes ?st1 ?cur), col (allNodes ?st1 ?cur)) = ?cur"
      using rc by simp
    show ?thesis
    proof (cases "closedSet st ?cur")
      case True
      then have c1: "closedSet ?st1 (row (allNodes ?st1 ?cur), col (allNodes ?st1 ?cur))"
        using cell by simp
      have eq: "aStar_loop grid rows cols goal gr gc st = aStar_loop grid rows cols goal gr gc ?st1"
        using ne valid c1 by (subst aStar_loop.simps) (simp add: Let_def)
      have "astar_inv grid rows cols s ?st1" using inv by (rule astar_inv_pop)
      from "1.IH"(1)[OF ne refl refl refl refl _ c1 this] valid eq show ?thesis by simp
    next
      case False
      then have c1: "\<not> closedSet ?st1 (row (allNodes ?st1 ?cur), col (allNodes ?st1 ?cur))"
        using cell by simp
      let ?st2 = "?st1\<lparr>closedSet := (closedSet ?st1)((row (allNodes ?st1 ?cur), col (allNodes ?st1 ?cur)) := True),
                       expanded := expanded ?st1 @ [?cur]\<rparr>"
      have st2eq: "?st2 = st\<lparr>openSet := pq_pop (CompareFCost (allNodes st)) (openSet st),
               closedSet := (closedSet st)(?cur := True),
               expanded := expanded st @ [?cur]\<rparr>"
        using cell by simp
      have inv2: "astar_inv grid rows cols s ?st2"
        unfolding st2eq using inv ne False by (rule astar_inv_close)
      note D2 = astar_invD[OF inv2]
      show ?thesis
      proof (cases "?cur = goal")
        case True
        have eq: "aStar_loop grid rows cols goal gr gc st
              = map_option (\<lambda>path. Inr (rev path, ?st2)) (reconstruct (allNodes ?st2) (Some goal) [])"
          using ne valid c1 True by (subst aStar_loop.simps) (simp add: Let_def)
        have len: "length (expanded st) < length (expanded ?st2)" by simp
        have last: "expanded ?st2 ! length (expanded st) = goal" using True by simp
        from reconstruct_chain[OF inv2 len, of "[]"] last obtain p where
          p: "reconstruct (allNodes ?st2) (Some goal) [] = Some p"
             "p \<noteq> []" "hd p = goal" "last p = s" "distinct p"
             "successively (\<lambda>a b. orthogonal_step b a) p"
             "\<forall>c \<in> set p. c = s \<or> walkable grid c"
          by auto
        have "path_ok grid s goal (rev p)"
          using p by (simp add: path_ok_def hd_rev last_rev)
        with eq p(1) inv2 show ?thesis by simp
      next
        case ng: False
        have closed_cur: "closedSet ?st2 ?cur" using cell by simp
        have closed_s: "closedSet ?st2 s"
        proof (cases "closedSet st s")
          case True
          then show ?thesis by simp
        next
          case False
          from D(7)[OF this] cur_in have "?cur = s" by auto
          with closed_cur show ?thesis by simp
        qed
        show ?thesis
        proof (cases "explore grid rows cols gr gc ?cur [0, 1, 2, 3] ?st2")
          case (Inl e)
          have eq: "aStar_loop grid rows cols goal gr gc st = Some (Inl e)"
            using ne valid c1 ng Inl
            by (subst aStar_loop.simps) (simp add: Let_def del: explore.simps)
          from explore_Inl[of grid rows cols gr gc ?cur "[0, 1, 2, 3]" ?st2 e] Inl
          have "\<not> grid_total grid rows cols" by blast
          with eq show ?thesis by simp
        next
          case (Inr st3)
          have eq: "aStar_loop grid rows cols goal gr gc st = aStar_loop grid rows cols goal gr gc st3"
            using ne valid c1 ng Inr
            by (subst aStar_loop.simps) (simp add: Let_def del: explore.simps)
          have "astar_inv grid rows cols s st3"
            using astar_inv_explore[OF Inr inv2 closed_cur closed_s] by simp
          from "1.IH"(2)[OF ne refl refl refl refl _ c1 refl ng Inr this] valid eq
          show ?thesis by simp
        qed
      qed
    qed
  qed
qed

lemma aStar_loop_split:
  assumes "astar_inv grid rows cols s st"
  shows "\<exists>r. aStar_loop grid rows cols goal gr gc st = Some r \<and>
           (\<forall>e. r = Inl e \<longrightarrow> \<not> grid_total grid rows cols) \<and>
           (\<forall>path stF. r = Inr (path, stF) \<longrightarrow>
               astar_inv grid rows cols s stF \<and> (path \<noteq> [] \<longrightarrow> path_ok grid s goal path))"
proof -
  from aStar_loop_correct[OF assms, of goal gr gc] obtain r where
    rr: "aStar_loop grid rows cols goal gr gc st = Some r \<and>
       (case r of Inl e \<Rightarrow> \<not> grid_total grid rows cols
        | Inr (path, stF) \<Rightarrow> astar_inv grid rows cols s stF \<and>
            (path \<noteq> [] \<longrightarrow> path_ok grid s goal path))" ..
  show ?thesis
  proof (cases r)
    case (Inl e)
    with rr show ?thesis by simp
  next
    case (Inr b)
    obtain path stF where b: "b = (path, stF)" by (cases b)
    with Inr rr show ?thesis by simp
  qed
qed


lemma aStarSearch_run_early:
  assumes "\<not> (grid \<noteq> [] \<and> isValid sr sc (int (length grid)) (int (length (grid ! 0))) \<and>
              isValid gr gc (int (length grid)) (int (length (grid ! 0))))"
  shows "aStarSearch_run grid sr sc gr gc = Some (Inl OutOfBounds)"
  using assms unfolding aStarSearch_run_def Let_def by (auto split: if_splits)

lemma aStarSearch_run_loop:
  assumes "grid \<noteq> []" "isValid sr sc (int (length grid)) (int (length (grid ! 0)))"
    "isValid gr gc (int (length grid)) (int (length (grid ! 0)))"
  shows "aStarSearch_run grid sr sc gr gc
         = aStar_loop grid (int (length grid)) (int (length (grid ! 0))) (gr, gc) gr gc
             (aStar_init sr sc gr gc)"
  using assms by (simp add: aStarSearch_run_def Let_def)

lemma aStarSearch_run_Some: "\<exists>r. aStarSearch_run grid sr sc gr gc = Some r"
proof (cases "grid \<noteq> [] \<and> isValid sr sc (int (length grid)) (int (length (grid ! 0))) \<and>
              isValid gr gc (int (length grid)) (int (length (grid ! 0)))")
  case False
  from aStarSearch_run_early[OF this] show ?thesis by blast
next
  case True
  then have inv0: "astar_inv grid (int (length grid)) (int (length (grid ! 0))) (sr, sc)
                     (aStar_init sr sc gr gc)"
    by (intro astar_inv_init) simp
  from aStar_loop_split[OF inv0, of "(gr, gc)" gr gc] aStarSearch_run_loop[of grid sr sc gr gc] True
  show ?thesis by auto
qed

lemma aStarSearch_run_Inr:
  assumes run: "aStarSearch_run grid sr sc gr gc = Some (Inr (path, stF))"
  shows "astar_inv grid (int (length grid)) (int (length (grid ! 0))) (sr, sc) stF"
    and "path \<noteq> [] \<Longrightarrow> path_ok grid (sr, sc) (gr, gc) path"
proof -
  have v: "grid \<noteq> [] \<and> isValid sr sc (int (length grid)) (int (length (grid ! 0))) \<and>
              isValid gr gc (int (length grid)) (int (length (grid ! 0)))"
  proof (rule ccontr)
    assume "\<not> ?thesis"
    from aStarSearch_run_early[OF this] run show False by simp
  qed
  then have inv0: "astar_inv grid (int (length grid)) (int (length (grid ! 0))) (sr, sc)
                     (aStar_init sr sc gr gc)"
    by (intro astar_inv_init) simp
  from aStar_loop_split[OF inv0, of "(gr, gc)" gr gc] aStarSearch_run_loop[of grid sr sc gr gc] v run
  have "astar_inv grid (int (length grid)) (int (length (grid ! 0))) (sr, sc) stF \<and>
        (path \<noteq> [] \<longrightarrow> path_ok grid (sr, sc) (gr, gc) path)"
    by auto
  then show "astar_inv grid (int (length grid)) (int (length (grid ! 0))) (sr, sc) stF"
    and "path \<noteq> [] \<Longrightarrow> path_ok grid (sr, sc) (gr, gc) path" by simp_all
qed


lemma aStarSearch_Inr:
  assumes "aStarSearch grid sr sc gr gc = Some (Inr path)"
  shows "\<exists>stF. aStarSearch_run grid sr sc gr gc = Some (Inr (path, stF))"
proof -
  from assms obtain r where r: "aStarSearch_run grid sr sc gr gc = Some r" "map_sum id fst r = Inr path"
    by (auto simp: aStarSearch_def)
  from r(2) obtain stF where "r = Inr (path, stF)" by (cases r) auto
  with r(1) show ?thesis by blast
qed



lemma example_grid_run:
  "aStarSearch example_grid 0 0 2 2 = Some (Inr [(0, 0), (1, 0), (2, 0), (2, 1), (2, 2)])"
  by code_simp

subsection \<open>The Dijkstra invariant\<close>

lemma dinvD:
  assumes "dinv n g s u es st"
  shows "length (dist st) = nat n"
    and "0 \<le> s" and "s < n" and "dist st ! nat s = 0"
    and "0 \<le> v \<Longrightarrow> v < n \<Longrightarrow> 0 \<le> dist st ! nat v"
    and "0 \<le> v \<Longrightarrow> v < n \<Longrightarrow> dist st ! nat v \<le> INT_MAX"
    and "e \<in> set (pq st) \<Longrightarrow> 0 \<le> snd e \<and> snd e < n \<and> dist st ! nat (snd e) \<le> fst e \<and> fst e < INT_MAX"
    and "0 \<le> v \<Longrightarrow> v < n \<Longrightarrow> dist st ! nat v < INT_MAX \<Longrightarrow>
          v \<in> set (settled st) \<or> (dist st ! nat v, v) \<in> set (pq st)"
    and "x \<in> set (settled st) \<Longrightarrow> 0 \<le> x \<and> x < n"
    and "x \<in> set (settled st) \<Longrightarrow> e \<in> set (g ! nat x) \<Longrightarrow>
          (x = u \<and> e \<in> set es) \<or> dist st ! nat (fst e) \<le> dist st ! nat x + snd e"
    and "x \<in> set (settled st) \<Longrightarrow> e \<in> set (pq st) \<Longrightarrow> dist st ! nat x \<le> fst e"
    and "sorted (map (\<lambda>x. dist st ! nat x) (settled st))"
    and "distinct (settled st)"
    and "x \<in> set (settled st) \<Longrightarrow> (dist st ! nat x, x) \<notin> set (pq st)"
    and "0 \<le> v \<Longrightarrow> v < n \<Longrightarrow> count_list (pq st) (dist st ! nat v, v) \<le> 1"
    and "0 \<le> v \<Longrightarrow> v < n \<Longrightarrow> dist st ! nat v < INT_MAX \<Longrightarrow>
          \<exists>p. is_path g s p v \<and> path_weight p = dist st ! nat v"
  using assms unfolding dinv_def by blast+

lemma dinvI:
  assumes "length (dist st) = nat n"
    and "0 \<le> s \<and> s < n \<and> dist st ! nat s = 0"
    and "\<And>v. 0 \<le> v \<Longrightarrow> v < n \<Longrightarrow> 0 \<le> dist st ! nat v \<and> dist st ! nat v \<le> INT_MAX"
    and "\<And>e. e \<in> set (pq st) \<Longrightarrow>
           0 \<le> snd e \<and> snd e < n \<and> dist st ! nat (snd e) \<le> fst e \<and> fst e < INT_MAX"
    and "\<And>v. 0 \<le> v \<Longrightarrow> v < n \<Longrightarrow> dist st ! nat v < INT_MAX \<Longrightarrow>
          v \<in> set (settled st) \<or> (dist st ! nat v, v) \<in> set (pq st)"
    and "\<And>x. x \<in> set (settled st) \<Longrightarrow> 0 \<le> x \<and> x < n"
    and "\<And>x e. x \<in> set (settled st) \<Longrightarrow> e \<in> set (g ! nat x) \<Longrightarrow>
          (x = u \<and> e \<in> set es) \<or> dist st ! nat (fst e) \<le> dist st ! nat x + snd e"
    and "\<And>x e. x \<in> set (settled st) \<Longrightarrow> e \<in> set (pq st) \<Longrightarrow> dist st ! nat x \<le> fst e"
    and "sorted (map (\<lambda>x. dist st ! nat x) (settled st))"
    and "distinct (settled st)"
    and "\<And>x. x \<in> set (settled st) \<Longrightarrow> (dist st ! nat x, x) \<notin> set (pq st)"
    and "\<And>v. 0 \<le> v \<Longrightarrow> v < n \<Longrightarrow> count_list (pq st) (dist st ! nat v, v) \<le> 1"
    and "\<And>v. 0 \<le> v \<Longrightarrow> v < n \<Longrightarrow> dist st ! nat v < INT_MAX \<Longrightarrow>
          \<exists>p. is_path g s p v \<and> path_weight p = dist st ! nat v"
  shows "dinv n g s u es st"
  unfolding dinv_def using assms by blast

lemma nth_upd_int:
  "0 \<le> v \<Longrightarrow> 0 \<le> x \<Longrightarrow> nat v < length ds \<Longrightarrow>
     ds[nat v := a] ! nat x = (if x = v then a else ds ! nat x)"
  by (auto simp: nth_list_update)

lemma is_path_snoc:
  "is_path g s p u \<Longrightarrow> in_bounds g u \<Longrightarrow> e \<in> set (g ! nat u) \<Longrightarrow> is_path g s (p @ [e]) (fst e)"
  by (induction p arbitrary: s) auto

lemma is_path_snocD:
  "is_path g s (p @ [e]) t \<Longrightarrow> \<exists>u. is_path g s p u \<and> in_bounds g u \<and> e \<in> set (g ! nat u) \<and> t = fst e"
  by (induction p arbitrary: s) auto

lemma path_weight_snoc [simp]: "path_weight (p @ [e]) = path_weight p + snd e"
  by (simp add: path_weight_def)

lemma path_weight_Nil [simp]: "path_weight [] = 0"
  by (simp add: path_weight_def)

lemma wf_edge:
  assumes "wf_graph n g" "0 \<le> x \<and> x < n" "e \<in> set (g ! nat x)"
  shows "0 \<le> fst e \<and> fst e < n"
proof -
  from assms(1,2) have "nat x < length g" by (simp add: wf_graph_def nat_less_iff)
  then have "g ! nat x \<in> set g" by simp
  with assms(1,3) show ?thesis unfolding wf_graph_def by blast
qed

lemma nonneg_edge:
  assumes "nonneg_weights g" "wf_graph n g" "0 \<le> x \<and> x < n" "e \<in> set (g ! nat x)"
  shows "0 \<le> snd e"
proof -
  from assms(2,3) have "nat x < length g" by (simp add: wf_graph_def nat_less_iff)
  then have "g ! nat x \<in> set g" by simp
  with assms(1,4) show ?thesis unfolding nonneg_weights_def by blast
qed

lemma upto_edge:
  assumes "weights_upto W g" "wf_graph n g" "0 \<le> x \<and> x < n" "e \<in> set (g ! nat x)"
  shows "snd e \<le> W"
proof -
  from assms(2,3) have "nat x < length g" by (simp add: wf_graph_def nat_less_iff)
  then have "g ! nat x \<in> set g" by simp
  with assms(1,4) show ?thesis unfolding weights_upto_def by blast
qed

lemma add_int_Inr: "add_int a b = Inr c \<Longrightarrow> c = a + b \<and> c \<le> INT_MAX"
  by (auto simp: add_int_def split: if_splits)

lemma dinv_skip:
  assumes inv: "dinv n g s u ((v, w) # es) st"
    and le: "dist st ! nat v \<le> dist st ! nat u + w"
  shows "dinv n g s u es st"
proof -
  have a: "\<And>x e. ((x = u \<and> e \<in> set ((v, w) # es)) \<or>
                 dist st ! nat (fst e) \<le> dist st ! nat x + snd e) \<Longrightarrow>
               ((x = u \<and> e \<in> set es) \<or>
                 dist st ! nat (fst e) \<le> dist st ! nat x + snd e)"
    using le by auto
  from inv show ?thesis unfolding dinv_def using a by meson
qed

lemma dinv_update:
  assumes inv: "dinv n g s u ((v, w) # es) st"
    and v: "0 \<le> v" "v < n" and w: "0 \<le> w"
    and edge: "(v, w) \<in> set (g ! nat u)" and ug: "in_bounds g u"
    and wf: "wf_graph n g"
    and u: "settled st \<noteq> []" "last (settled st) = u"
    and sm: "sm = dist st ! nat u + w" "sm < dist st ! nat v" "sm \<le> INT_MAX"
  shows "dinv n g s u es (st\<lparr>dist := (dist st)[nat v := sm], pq := (sm, v) # pq st\<rparr>)"
    (is "dinv _ _ _ _ _ ?st'")
proof -
  note D = dinvD[OF inv]
  from u have uin: "u \<in> set (settled st)" by (metis last_in_set)
  from D(9)[OF uin] have ur: "0 \<le> u" "u < n" by simp_all
  have vlen: "nat v < length (dist st)" using v D(1) by simp
  have upd: "\<And>x. 0 \<le> x \<Longrightarrow> dist ?st' ! nat x = (if x = v then sm else dist st ! nat x)"
    using v vlen by (simp add: nth_upd_int)
  have du0: "0 \<le> dist st ! nat u" using D(5)[OF ur] .
  have sm0: "0 \<le> sm" using du0 w sm(1) by simp
  have smax: "sm < INT_MAX" using sm(2) D(6)[OF v] by simp
  have le_u: "\<And>x. x \<in> set (settled st) \<Longrightarrow> dist st ! nat x \<le> dist st ! nat u"
  proof -
    fix x assume x: "x \<in> set (settled st)"
    from u have "settled st = butlast (settled st) @ [u]" by (metis append_butlast_last_id)
    then obtain ys where ys: "settled st = ys @ [u]" ..
    with D(12) x show "dist st ! nat x \<le> dist st ! nat u"
      by (auto simp: sorted_append)
  qed
  have vns: "v \<notin> set (settled st)"
  proof
    assume "v \<in> set (settled st)"
    from le_u[OF this] sm(1,2) w show False by simp
  qed
  have vnu: "v \<noteq> u" using vns uin by auto
  have sett: "\<And>x. x \<in> set (settled st) \<Longrightarrow> dist ?st' ! nat x = dist st ! nat x"
    using D(9) upd vns by auto
  show ?thesis
  proof (rule dinvI)
    show "length (dist ?st') = nat n" using D(1) by simp
    show "0 \<le> s \<and> s < n \<and> dist ?st' ! nat s = 0"
    proof -
      have "s \<noteq> v" using sm(2) sm0 D(4) by auto
      with D(2,3,4) upd[of s] show ?thesis by simp
    qed
    show "0 \<le> dist ?st' ! nat x \<and> dist ?st' ! nat x \<le> INT_MAX" if "0 \<le> x" "x < n" for x
      using upd[OF that(1)] D(5,6)[OF that] sm0 sm(3) by simp
    show "0 \<le> snd e \<and> snd e < n \<and> dist ?st' ! nat (snd e) \<le> fst e \<and> fst e < INT_MAX"
      if "e \<in> set (pq ?st')" for e
    proof (cases "e = (sm, v)")
      case True
      with v upd[of v] smax show ?thesis by simp
    next
      case False
      with that have e: "e \<in> set (pq st)" by simp
      from D(7)[OF e] upd[of "snd e"] sm(2) show ?thesis by auto
    qed
    show "x \<in> set (settled ?st') \<or> (dist ?st' ! nat x, x) \<in> set (pq ?st')"
      if "0 \<le> x" "x < n" "dist ?st' ! nat x < INT_MAX" for x
    proof (cases "x = v")
      case True
      with upd[OF that(1)] show ?thesis by simp
    next
      case False
      with upd[OF that(1)] that D(8)[of x] show ?thesis by auto
    qed
    show "0 \<le> x \<and> x < n" if "x \<in> set (settled ?st')" for x
      using that D(9) by simp
    show "(x = u \<and> e \<in> set es) \<or> dist ?st' ! nat (fst e) \<le> dist ?st' ! nat x + snd e"
      if "x \<in> set (settled ?st')" "e \<in> set (g ! nat x)" for x e
    proof -
      from that have x: "x \<in> set (settled st)" by simp
      have dx: "dist ?st' ! nat x = dist st ! nat x" using sett[OF x] .
      have fe: "0 \<le> fst e \<Longrightarrow> dist ?st' ! nat (fst e) \<le> dist st ! nat (fst e)"
        using upd[of "fst e"] sm(2) by auto
      from D(10)[OF x that(2)] show ?thesis
      proof
        assume a: "x = u \<and> e \<in> set ((v, w) # es)"
        show ?thesis
        proof (cases "e = (v, w)")
          case True
          with a dx upd[of v] v sm(1) show ?thesis by simp
        next
          case False
          with a show ?thesis by simp
        qed
      next
        assume a: "dist st ! nat (fst e) \<le> dist st ! nat x + snd e"
        show ?thesis
        proof (cases "fst e = v")
          case True
          with a dx upd[of v] v sm(2) show ?thesis by simp
        next
          case False
          have "0 \<le> fst e" using wf_edge[OF wf D(9)[OF x] that(2)] by simp
          with upd[of "fst e"] False
          have "dist ?st' ! nat (fst e) = dist st ! nat (fst e)" by simp
          with a dx show ?thesis by simp
        qed
      qed
    qed
    show "dist ?st' ! nat x \<le> fst e" if "x \<in> set (settled ?st')" "e \<in> set (pq ?st')" for x e
    proof -
      from that have x: "x \<in> set (settled st)" by simp
      show ?thesis
      proof (cases "e = (sm, v)")
        case True
        with sett[OF x] le_u[OF x] sm(1) w show ?thesis by simp
      next
        case False
        with that have "e \<in> set (pq st)" by simp
        from D(11)[OF x this] sett[OF x] show ?thesis by simp
      qed
    qed
    show "sorted (map (\<lambda>x. dist ?st' ! nat x) (settled ?st'))"
    proof -
      have "map (\<lambda>x. dist ?st' ! nat x) (settled ?st') = map (\<lambda>x. dist st ! nat x) (settled st)"
        using sett by (intro map_cong) auto
      with D(12) show ?thesis by (simp only:)
    qed
    show "distinct (settled ?st')" using D(13) by simp
    show "(dist ?st' ! nat x, x) \<notin> set (pq ?st')" if "x \<in> set (settled ?st')" for x
    proof -
      from that have x: "x \<in> set (settled st)" by simp
      with vns have "x \<noteq> v" by auto
      with D(14)[OF x] sett[OF x] show ?thesis by simp
    qed
    show "count_list (pq ?st') (dist ?st' ! nat x, x) \<le> 1" if "0 \<le> x" "x < n" for x
    proof (cases "x = v")
      case True
      have "(sm, v) \<notin> set (pq st)"
      proof
        assume "(sm, v) \<in> set (pq st)"
        from D(7)[OF this] sm(2) show False by simp
      qed
      then have "count_list (pq st) (sm, v) = 0" by (simp add: count_list_0_iff)
      with True upd[OF that(1)] show ?thesis by simp
    next
      case False
      with upd[OF that(1)] D(15)[OF that] show ?thesis by simp
    qed
    show "\<exists>p. is_path g s p x \<and> path_weight p = dist ?st' ! nat x"
      if "0 \<le> x" "x < n" "dist ?st' ! nat x < INT_MAX" for x
    proof (cases "x = v")
      case True
      have "dist st ! nat u < INT_MAX" using sm(1) smax w by simp
      from D(16)[OF ur this] obtain p where p: "is_path g s p u" "path_weight p = dist st ! nat u"
        by blast
      from is_path_snoc[OF p(1) ug edge] have "is_path g s (p @ [(v, w)]) v" by simp
      moreover have "path_weight (p @ [(v, w)]) = sm" using p(2) sm(1) by simp
      ultimately show ?thesis using True upd[OF that(1)] by auto
    next
      case False
      with upd[OF that(1)] that D(16)[of x] show ?thesis by simp
    qed
  qed
qed

lemma relax_edges_dinv:
  assumes wf: "wf_graph n g" and nn: "nonneg_weights g"
  shows "relax_edges u es st = Inr st' \<Longrightarrow> dinv n g s u es st \<Longrightarrow>
         set es \<subseteq> set (g ! nat u) \<Longrightarrow> in_bounds g u \<Longrightarrow>
         settled st \<noteq> [] \<Longrightarrow> last (settled st) = u \<Longrightarrow>
         dinv n g s u [] st' \<and> settled st' = settled st"
proof (induction es arbitrary: st)
  case Nil
  then show ?case by simp
next
  case (Cons e es)
  obtain v w where e: "e = (v, w)" by (cases e)
  note D = dinvD[OF Cons.prems(2)]
  from Cons.prems(2) e have inv0: "dinv n g s u ((v, w) # es) st" by simp
  from Cons.prems(5,6) have uin: "u \<in> set (settled st)" by (metis last_in_set)
  from D(9)[OF uin] have ur: "0 \<le> u \<and> u < n" .
  from Cons.prems(3) e have edge: "(v, w) \<in> set (g ! nat u)" by simp
  from wf_edge[OF wf ur edge] have v: "0 \<le> v" "v < n" by simp_all
  from nonneg_edge[OF nn wf ur edge] have w: "0 \<le> w" by simp
  from Cons.prems(1) e obtain sm where sm: "add_int (dist st ! nat u) w = Inr sm"
    by (auto split: if_splits sum.splits)
  from add_int_Inr[OF sm] have smv: "sm = dist st ! nat u + w" "sm \<le> INT_MAX" by simp_all
  from Cons.prems(1) e have ib: "in_bounds (dist st) u" "in_bounds (dist st) v"
    by (auto split: if_splits)
  from Cons.prems(3) have sub: "set es \<subseteq> set (g ! nat u)" by simp
  show ?case
  proof (cases "sm < dist st ! nat v")
    case True
    let ?st1 = "st\<lparr>dist := (dist st)[nat v := sm], pq := (sm, v) # pq st\<rparr>"
    from Cons.prems(1) e ib sm True have r: "relax_edges u es ?st1 = Inr st'" by simp
    have inv1: "dinv n g s u es ?st1"
      by (rule dinv_update[OF inv0 v w edge Cons.prems(4) wf Cons.prems(5,6) smv(1) True smv(2)])
    from Cons.IH[OF r inv1 sub Cons.prems(4)] Cons.prems(5,6) show ?thesis by simp
  next
    case False
    from Cons.prems(1) e ib sm False have r: "relax_edges u es st = Inr st'" by simp
    from False smv(1) have "dist st ! nat v \<le> dist st ! nat u + w" by simp
    from dinv_skip[OF inv0 this] have inv1: "dinv n g s u es st" .
    from Cons.IH[OF r inv1 sub Cons.prems(4,5,6)] show ?thesis .
  qed
qed

lemma dinv_nil_any: "dinv n g s u [] st \<Longrightarrow> dinv n g s u' [] st"
  unfolding dinv_def by simp

lemma count_list_remove1_le: "count_list (remove1 x xs) y \<le> count_list xs y"
  by (induction xs) auto

lemma notin_remove1_count: "count_list xs x \<le> 1 \<Longrightarrow> x \<notin> set (remove1 x xs)"
proof (induction xs)
  case Nil
  then show ?case by simp
next
  case (Cons a xs)
  show ?case
  proof (cases "a = x")
    case True
    with Cons.prems have "count_list xs x = 0" by simp
    with True show ?thesis by (simp add: count_list_0_iff)
  next
    case False
    with Cons show ?thesis by simp
  qed
qed

lemma Min_pq:
  fixes q :: "(int \<times> int) list"
  assumes "q \<noteq> []"
  shows "Min (set q) \<in> set q" and "\<And>e. e \<in> set q \<Longrightarrow> fst (Min (set q)) \<le> fst e"
proof -
  show "Min (set q) \<in> set q" using assms by (intro Min_in) auto
  fix e :: "int \<times> int" assume "e \<in> set q"
  then have "Min (set q) \<le> e" by simp
  then show "fst (Min (set q)) \<le> fst e"
    by (cases "Min (set q)"; cases e) (auto simp: less_eq_prod_def)
qed

lemma dinv_pop_stale:
  assumes inv: "dinv n g s u [] st" and ne: "pq st \<noteq> []"
    and stale: "dist st ! nat (snd (Min (set (pq st)))) < fst (Min (set (pq st)))"
  shows "dinv n g s u [] (st\<lparr>pq := remove1 (Min (set (pq st))) (pq st)\<rparr>)"
    (is "dinv _ _ _ _ _ ?st'")
proof (rule dinvI)
  note D = dinvD[OF inv]
  let ?top = "Min (set (pq st))"
  have sub: "\<And>e. e \<in> set (pq ?st') \<Longrightarrow> e \<in> set (pq st)"
    using set_remove1_subset[of "Min (set (pq st))" "pq st"] by auto
  show "length (dist ?st') = nat n" using D(1) by simp
  show "0 \<le> s \<and> s < n \<and> dist ?st' ! nat s = 0" using D(2,3,4) by simp
  show "0 \<le> dist ?st' ! nat v \<and> dist ?st' ! nat v \<le> INT_MAX" if "0 \<le> v" "v < n" for v
    using D(5,6)[OF that] by simp
  show "0 \<le> snd e \<and> snd e < n \<and> dist ?st' ! nat (snd e) \<le> fst e \<and> fst e < INT_MAX"
    if "e \<in> set (pq ?st')" for e
    using D(7)[OF sub[OF that]] by simp
  show "v \<in> set (settled ?st') \<or> (dist ?st' ! nat v, v) \<in> set (pq ?st')"
    if "0 \<le> v" "v < n" "dist ?st' ! nat v < INT_MAX" for v
  proof -
    from D(8)[OF that(1,2)] that(3)
    have "v \<in> set (settled st) \<or> (dist st ! nat v, v) \<in> set (pq st)" by simp
    moreover have "(dist st ! nat v, v) \<noteq> ?top"
    proof
      assume a: "(dist st ! nat v, v) = ?top"
      have "fst ?top = dist st ! nat v" "snd ?top = v" by (simp_all flip: a)
      with stale show False by simp
    qed
    ultimately show ?thesis by (auto simp: in_set_remove1)
  qed
  show "0 \<le> x \<and> x < n" if "x \<in> set (settled ?st')" for x using that D(9) by simp
  show "(x = u \<and> e \<in> set []) \<or> dist ?st' ! nat (fst e) \<le> dist ?st' ! nat x + snd e"
    if "x \<in> set (settled ?st')" "e \<in> set (g ! nat x)" for x e
    using D(10)[of x e] that by simp
  show "dist ?st' ! nat x \<le> fst e" if "x \<in> set (settled ?st')" "e \<in> set (pq ?st')" for x e
    using D(11)[of x e] that sub by simp
  show "sorted (map (\<lambda>x. dist ?st' ! nat x) (settled ?st'))" using D(12) by simp
  show "distinct (settled ?st')" using D(13) by simp
  show "(dist ?st' ! nat x, x) \<notin> set (pq ?st')" if "x \<in> set (settled ?st')" for x
    using D(14)[of x] that sub by auto
  show "count_list (pq ?st') (dist ?st' ! nat v, v) \<le> 1" if "0 \<le> v" "v < n" for v
    using D(15)[OF that] count_list_remove1_le[of ?top "pq st" "(dist st ! nat v, v)"] by simp
  show "\<exists>p. is_path g s p v \<and> path_weight p = dist ?st' ! nat v"
    if "0 \<le> v" "v < n" "dist ?st' ! nat v < INT_MAX" for v
    using D(16)[OF that(1,2)] that(3) by simp
qed

lemma dinv_pop_settle:
  assumes inv: "dinv n g s u0 [] st" and ne: "pq st \<noteq> []"
    and fresh: "\<not> dist st ! nat (snd (Min (set (pq st)))) < fst (Min (set (pq st)))"
  shows "dinv n g s (snd (Min (set (pq st)))) (g ! nat (snd (Min (set (pq st)))))
           (st\<lparr>pq := remove1 (Min (set (pq st))) (pq st),
               settled := settled st @ [snd (Min (set (pq st)))]\<rparr>)"
    (is "dinv _ _ _ ?u _ ?st'")
proof (rule dinvI)
  note D = dinvD[OF inv]
  let ?top = "Min (set (pq st))"
  have top_in: "?top \<in> set (pq st)" using Min_pq(1)[OF ne] .
  have top_le: "\<And>e. e \<in> set (pq st) \<Longrightarrow> fst ?top \<le> fst e" using Min_pq(2)[OF ne] .
  from D(7)[OF top_in] fresh have du: "dist st ! nat ?u = fst ?top" and ur: "0 \<le> ?u" "?u < n"
    by auto
  have top_eq: "?top = (dist st ! nat ?u, ?u)" using du by (cases ?top) simp
  have sub: "\<And>e. e \<in> set (pq ?st') \<Longrightarrow> e \<in> set (pq st)"
    using set_remove1_subset[of "Min (set (pq st))" "pq st"] by auto
  have unew: "?u \<notin> set (settled st)"
  proof
    assume "?u \<in> set (settled st)"
    from D(14)[OF this] top_in top_eq show False by simp
  qed
  show "length (dist ?st') = nat n" using D(1) by simp
  show "0 \<le> s \<and> s < n \<and> dist ?st' ! nat s = 0" using D(2,3,4) by simp
  show "0 \<le> dist ?st' ! nat v \<and> dist ?st' ! nat v \<le> INT_MAX" if "0 \<le> v" "v < n" for v
    using D(5,6)[OF that] by simp
  show "0 \<le> snd e \<and> snd e < n \<and> dist ?st' ! nat (snd e) \<le> fst e \<and> fst e < INT_MAX"
    if "e \<in> set (pq ?st')" for e
    using D(7)[OF sub[OF that]] by simp
  show "v \<in> set (settled ?st') \<or> (dist ?st' ! nat v, v) \<in> set (pq ?st')"
    if "0 \<le> v" "v < n" "dist ?st' ! nat v < INT_MAX" for v
  proof (cases "v = ?u")
    case True
    then show ?thesis by simp
  next
    case False
    from D(8)[OF that(1,2)] that(3)
    have "v \<in> set (settled st) \<or> (dist st ! nat v, v) \<in> set (pq st)" by simp
    moreover have "(dist st ! nat v, v) \<noteq> ?top"
    proof
      assume a: "(dist st ! nat v, v) = ?top"
      have "snd ?top = v" by (simp flip: a)
      with False show False by simp
    qed
    ultimately show ?thesis by (auto simp: in_set_remove1)
  qed
  show "0 \<le> x \<and> x < n" if "x \<in> set (settled ?st')" for x using that D(9) ur by auto
  show "(x = ?u \<and> e \<in> set (g ! nat ?u)) \<or> dist ?st' ! nat (fst e) \<le> dist ?st' ! nat x + snd e"
    if "x \<in> set (settled ?st')" "e \<in> set (g ! nat x)" for x e
  proof (cases "x = ?u")
    case True
    with that show ?thesis by simp
  next
    case False
    with that have "x \<in> set (settled st)" by simp
    from D(10)[OF this that(2)] show ?thesis by simp
  qed
  show "dist ?st' ! nat x \<le> fst e" if "x \<in> set (settled ?st')" "e \<in> set (pq ?st')" for x e
  proof (cases "x = ?u")
    case True
    with top_le[OF sub[OF that(2)]] du show ?thesis by simp
  next
    case False
    with that have "x \<in> set (settled st)" by simp
    from D(11)[OF this sub[OF that(2)]] show ?thesis by simp
  qed
  show "sorted (map (\<lambda>x. dist ?st' ! nat x) (settled ?st'))"
  proof -
    have "\<forall>x \<in> set (settled st). dist st ! nat x \<le> dist st ! nat ?u"
    proof
      fix x assume "x \<in> set (settled st)"
      from D(11)[OF this top_in] du show "dist st ! nat x \<le> dist st ! nat ?u" by simp
    qed
    with D(12) show ?thesis by (simp add: sorted_append)
  qed
  show "distinct (settled ?st')" using D(13) unew by simp
  show "(dist ?st' ! nat x, x) \<notin> set (pq ?st')" if "x \<in> set (settled ?st')" for x
  proof (cases "x = ?u")
    case True
    have "count_list (pq st) ?top \<le> 1" using D(15)[OF ur] top_eq by simp
    from notin_remove1_count[OF this] True top_eq show ?thesis by simp
  next
    case False
    with that have "x \<in> set (settled st)" by simp
    from D(14)[OF this] sub show ?thesis by auto
  qed
  show "count_list (pq ?st') (dist ?st' ! nat v, v) \<le> 1" if "0 \<le> v" "v < n" for v
    using D(15)[OF that] count_list_remove1_le[of ?top "pq st" "(dist st ! nat v, v)"] by simp
  show "\<exists>p. is_path g s p v \<and> path_weight p = dist ?st' ! nat v"
    if "0 \<le> v" "v < n" "dist ?st' ! nat v < INT_MAX" for v
    using D(16)[OF that(1,2)] that(3) by simp
qed

lemma dijkstra_loop_dinv:
  assumes wf: "wf_graph n g" and nn: "nonneg_weights g"
  shows "dijkstra_loop g st = Inr st' \<Longrightarrow> dinv n g s u [] st \<Longrightarrow>
         (\<exists>u'. dinv n g s u' [] st') \<and> pq st' = []"
  using wf nn
proof (induction g st arbitrary: u rule: dijkstra_loop.induct)
  case (1 g st)
  note inv = "1.prems"(2)
  note D = dinvD[OF inv]
  show ?case
  proof (cases "pq st = []")
    case True
    with "1.prems"(1) have "st' = st" by (subst (asm) dijkstra_loop.simps) simp
    with inv True show ?thesis by auto
  next
    case ne: False
    let ?top = "Min (set (pq st))"
    let ?u = "snd ?top"
    let ?st1 = "st\<lparr>pq := remove1 ?top (pq st)\<rparr>"
    have top_in: "?top \<in> set (pq st)" using Min_pq(1)[OF ne] .
    from D(7)[OF top_in] have ur: "0 \<le> ?u" "?u < n" by simp_all
    have ib: "in_bounds (dist ?st1) ?u" using ur D(1) by (simp add: in_bounds_def)
    show ?thesis
    proof (cases "dist st ! nat ?u < fst ?top")
      case True
      have eq: "dijkstra_loop g st = dijkstra_loop g ?st1"
        using ne ib True by (subst dijkstra_loop.simps) (simp add: Let_def)
      have inv1: "dinv n g s u [] ?st1" using inv ne True by (rule dinv_pop_stale)
      from "1.IH"(1)[OF ne refl refl refl refl _ _ _ inv1 "1.prems"(3,4)] ib True eq "1.prems"(1)
      show ?thesis by simp
    next
      case False
      let ?st2 = "?st1\<lparr>settled := settled ?st1 @ [?u]\<rparr>"
      have ibg: "in_bounds g ?u" using ur "1.prems"(3) by (simp add: in_bounds_def wf_graph_def)
      have inv2: "dinv n g s ?u (g ! nat ?u) ?st2"
        using dinv_pop_settle[OF inv ne False] by simp
      have unf: "dijkstra_loop g st =
            (case relax_edges ?u (g ! nat ?u) ?st2 of Inl e \<Rightarrow> Inl e
             | Inr st3 \<Rightarrow> dijkstra_loop g st3)"
        using ne ib False ibg by (subst dijkstra_loop.simps) (simp add: Let_def)
      with "1.prems"(1) obtain st3 where r: "relax_edges ?u (g ! nat ?u) ?st2 = Inr st3"
        by (cases "relax_edges ?u (g ! nat ?u) ?st2") auto
      with unf have eq: "dijkstra_loop g st = dijkstra_loop g st3" by simp
      have inv3: "dinv n g s ?u [] st3"
        using relax_edges_dinv[OF "1.prems"(3,4) r inv2 _ ibg] by simp
      from "1.IH"(2)[OF ne refl refl refl refl _ _ _ r _ inv3 "1.prems"(3,4)] ib False ibg eq "1.prems"(1)
      show ?thesis by simp
    qed
  qed
qed

lemma dinv_init:
  assumes "0 \<le> source" "source < n"
  shows "dinv n g source u []
           \<lparr>dist = (replicate (nat n) INT_MAX)[nat source := 0], pq = [(0, source)], settled = []\<rparr>"
proof (rule dinvI)
  let ?st = "\<lparr>dist = (replicate (nat n) INT_MAX)[nat source := 0], pq = [(0, source)], settled = []\<rparr>"
  have len: "nat source < nat n" using assms by simp
  have val: "\<And>v. 0 \<le> v \<Longrightarrow> v < n \<Longrightarrow> dist ?st ! nat v = (if v = source then 0 else INT_MAX)"
    using assms by (auto simp: nth_list_update)
  show "length (dist ?st) = nat n" by simp
  show "0 \<le> source \<and> source < n \<and> dist ?st ! nat source = 0" using assms val by simp
  show "0 \<le> dist ?st ! nat v \<and> dist ?st ! nat v \<le> INT_MAX" if "0 \<le> v" "v < n" for v
    using val[OF that] by (simp add: INT_MAX_def)
  show "0 \<le> snd e \<and> snd e < n \<and> dist ?st ! nat (snd e) \<le> fst e \<and> fst e < INT_MAX"
    if "e \<in> set (pq ?st)" for e
    using that assms val[of source] by (auto simp: INT_MAX_def)
  show "v \<in> set (settled ?st) \<or> (dist ?st ! nat v, v) \<in> set (pq ?st)"
    if "0 \<le> v" "v < n" "dist ?st ! nat v < INT_MAX" for v
    using val[OF that(1,2)] that(3) by (auto split: if_splits)
  show "\<exists>p. is_path g source p v \<and> path_weight p = dist ?st ! nat v"
    if "0 \<le> v" "v < n" "dist ?st ! nat v < INT_MAX" for v
  proof -
    from val[OF that(1,2)] that(3) have "v = source" "dist ?st ! nat v = 0"
      by (auto split: if_splits)
    then have "is_path g source [] v \<and> path_weight [] = dist ?st ! nat v" by simp
    then show ?thesis by blast
  qed
  show "count_list (pq ?st) (dist ?st ! nat v, v) \<le> 1" if "0 \<le> v" "v < n" for v
    by simp
qed simp_all

lemma final_le_path:
  assumes wf: "wf_graph n g" and nn: "nonneg_weights g"
    and inv: "dinv n g s u [] st" and emp: "pq st = []"
  shows "is_path g s p v \<Longrightarrow> 0 \<le> v \<and> v < n \<and> dist st ! nat v \<le> path_weight p"
proof (induction p arbitrary: v rule: rev_induct)
  case Nil
  note D = dinvD[OF inv]
  from Nil have "v = s" by simp
  with D(2,3,4) show ?case by simp
next
  case (snoc e p)
  note D = dinvD[OF inv]
  from is_path_snocD[OF snoc.prems] obtain x where
    x: "is_path g s p x" "in_bounds g x" "e \<in> set (g ! nat x)" "v = fst e" by blast
  from snoc.IH[OF x(1)] have xr: "0 \<le> x \<and> x < n" and dx: "dist st ! nat x \<le> path_weight p"
    by simp_all
  from wf_edge[OF wf xr x(3)] x(4) have vr: "0 \<le> v" "v < n" by simp_all
  from nonneg_edge[OF nn wf xr x(3)] have w: "0 \<le> snd e" .
  have "dist st ! nat v \<le> path_weight p + snd e"
  proof (cases "dist st ! nat x < INT_MAX")
    case True
    from D(8)[OF _ _ True] xr emp have "x \<in> set (settled st)" by simp
    from D(10)[OF this x(3)] x(4) dx show ?thesis by simp
  next
    case False
    with D(6)[OF vr] dx w show ?thesis by simp
  qed
  with vr show ?case by simp
qed

lemma settled_le_last:
  assumes inv: "dinv n g s u es st" and ne: "settled st \<noteq> []" and x: "x \<in> set (settled st)"
  shows "dist st ! nat x \<le> dist st ! nat (last (settled st))"
proof -
  from ne have "settled st = butlast (settled st) @ [last (settled st)]" by simp
  then obtain ys where ys: "settled st = ys @ [last (settled st)]" ..
  from dinvD(12)[OF inv] have "sorted (map (\<lambda>x. dist st ! nat x) (ys @ [last (settled st)]))"
    using ys by simp
  then have "\<forall>y \<in> set ys. dist st ! nat y \<le> dist st ! nat (last (settled st))"
    by (simp add: sorted_append)
  moreover from x ys have "x \<in> set ys \<or> x = last (settled st)" by (metis in_set_conv_decomp_last last_snoc rotate1.simps(2) set_ConsD set_rotate1)
  ultimately show ?thesis by auto
qed

lemma settled_length:
  assumes inv: "dinv n g s u es st"
  shows "int (length (settled st)) \<le> n"
proof -
  have "set (settled st) \<subseteq> {0..<n}" using dinvD(9)[OF inv] by auto
  then have "card (set (settled st)) \<le> card {0..<n}" by (intro card_mono) auto
  moreover have "card (set (settled st)) = length (settled st)"
    using dinvD(13)[OF inv] by (rule distinct_card)
  ultimately show ?thesis using dinvD(2,3)[OF inv] by simp
qed

lemma relax_edges_bounded:
  assumes wf: "wf_graph n g" and nn: "nonneg_weights g"
    and up: "weights_upto W g" and nW: "n * W < INT_MAX"
  shows "dinv n g s u es st \<Longrightarrow> dbound W st \<Longrightarrow>
         set es \<subseteq> set (g ! nat u) \<Longrightarrow> in_bounds g u \<Longrightarrow>
         settled st \<noteq> [] \<Longrightarrow> last (settled st) = u \<Longrightarrow>
         \<exists>st'. relax_edges u es st = Inr st' \<and> dbound W st'"
proof (induction es arbitrary: st)
  case Nil
  then show ?case by simp
next
  case (Cons e es)
  obtain v w where e: "e = (v, w)" by (cases e)
  note D = dinvD[OF Cons.prems(1)]
  from Cons.prems(1) e have inv0: "dinv n g s u ((v, w) # es) st" by simp
  from Cons.prems(5,6) have uin: "u \<in> set (settled st)" by (metis last_in_set)
  from D(9)[OF uin] have ur: "0 \<le> u \<and> u < n" .
  from Cons.prems(3) e have edge: "(v, w) \<in> set (g ! nat u)" by simp
  from wf_edge[OF wf ur edge] have v: "0 \<le> v" "v < n" by simp_all
  from nonneg_edge[OF nn wf ur edge] have w: "0 \<le> w" by simp
  from upto_edge[OF up wf ur edge] have wW: "w \<le> W" by simp
  from Cons.prems(3) have sub: "set es \<subseteq> set (g ! nat u)" by simp
  from Cons.prems(2) have W0: "0 \<le> W"
    and B1: "\<And>x. 0 \<le> x \<Longrightarrow> nat x < length (dist st) \<Longrightarrow> dist st ! nat x < INT_MAX \<Longrightarrow>
                dist st ! nat x \<le> int (length (settled st)) * W"
    and B2: "\<And>i. i < length (settled st) \<Longrightarrow> dist st ! nat (settled st ! i) \<le> int i * W"
    unfolding dbound_def by blast+
  let ?k = "length (settled st) - 1"
  from Cons.prems(5) have k: "?k < length (settled st)" by (cases "settled st") auto
  have "settled st ! ?k = u" using Cons.prems(5,6) by (simp add: last_conv_nth)
  with B2[OF k] have duk: "dist st ! nat u \<le> int ?k * W" by simp
  have "int ?k * W + W = int (length (settled st)) * W"
    using k by (simp add: algebra_simps of_nat_diff)
  with duk wW have sum_le: "dist st ! nat u + w \<le> int (length (settled st)) * W" by linarith
  have "int (length (settled st)) * W \<le> n * W"
    using settled_length[OF Cons.prems(1)] W0 by (rule mult_right_mono)
  with sum_le nW have lt: "dist st ! nat u + w < INT_MAX" by linarith
  have ge: "0 \<le> dist st ! nat u + w" using D(5)[of u] ur w by simp
  have ai: "add_int (dist st ! nat u) w = Inr (dist st ! nat u + w)"
    using lt ge by (simp add: add_int_def INT_MIN_def)
  have ib: "in_bounds (dist st) u" "in_bounds (dist st) v"
    using ur v D(1) by (simp_all add: in_bounds_def)
  let ?sm = "dist st ! nat u + w"
  show ?case
  proof (cases "?sm < dist st ! nat v")
    case True
    let ?st1 = "st\<lparr>dist := (dist st)[nat v := ?sm], pq := (?sm, v) # pq st\<rparr>"
    have unf: "relax_edges u (e # es) st = relax_edges u es ?st1"
      using e ib ai True by simp
    have inv1: "dinv n g s u es ?st1"
      using lt by (intro dinv_update[OF inv0 v w edge Cons.prems(4) wf Cons.prems(5,6) refl True]) simp
    have vns: "v \<notin> set (settled st)"
    proof
      assume "v \<in> set (settled st)"
      from settled_le_last[OF Cons.prems(1,5) this] Cons.prems(6) True w show False by simp
    qed
    have vlen: "nat v < length (dist st)" using v D(1) by simp
    have b1: "dbound W ?st1"
      unfolding dbound_def
    proof (intro conjI allI impI)
      show "0 \<le> W" by (rule W0)
    next
      fix x assume x: "0 \<le> x \<and> nat x < length (dist ?st1) \<and> dist ?st1 ! nat x < INT_MAX"
      show "dist ?st1 ! nat x \<le> int (length (settled ?st1)) * W"
      proof (cases "x = v")
        case True
        with vlen sum_le show ?thesis by simp
      next
        case False
        with x v vlen have "dist ?st1 ! nat x = dist st ! nat x" by (simp add: nth_upd_int)
        with x B1[of x] show ?thesis by simp
      qed
    next
      fix i assume i: "i < length (settled ?st1)"
      then have "settled st ! i \<in> set (settled st)" by simp
      with vns D(9)[of "settled st ! i"] have "settled st ! i \<noteq> v" "0 \<le> settled st ! i" by auto
      with v vlen have "dist ?st1 ! nat (settled st ! i) = dist st ! nat (settled st ! i)"
        by (simp add: nth_upd_int)
      with B2[of i] i show "dist ?st1 ! nat (settled ?st1 ! i) \<le> int i * W" by simp
    qed
    from Cons.IH[OF inv1 b1 sub Cons.prems(4)] Cons.prems(5,6) unf show ?thesis by simp
  next
    case False
    have unf: "relax_edges u (e # es) st = relax_edges u es st"
      using e ib ai False by simp
    from False have "dist st ! nat v \<le> dist st ! nat u + w" by simp
    from dinv_skip[OF inv0 this] have inv1: "dinv n g s u es st" .
    from Cons.IH[OF inv1 Cons.prems(2) sub Cons.prems(4,5,6)] unf show ?thesis by simp
  qed
qed

lemma dijkstra_loop_bounded:
  assumes wf: "wf_graph n g" and nn: "nonneg_weights g"
    and up: "weights_upto W g" and nW: "n * W < INT_MAX"
  shows "dinv n g s u [] st \<Longrightarrow> dbound W st \<Longrightarrow>
         \<exists>st'. dijkstra_loop g st = Inr st' \<and> dbound W st'"
  using wf nn up
proof (induction g st arbitrary: u rule: dijkstra_loop.induct)
  case (1 g st)
  note inv = "1.prems"(1)
  note D = dinvD[OF inv]
  note wf = "1.prems"(3) and nn = "1.prems"(4) and up = "1.prems"(5)
  show ?case
  proof (cases "pq st = []")
    case True
    then have "dijkstra_loop g st = Inr st" by (subst dijkstra_loop.simps) simp
    with "1.prems"(2) show ?thesis by simp
  next
    case ne: False
    let ?top = "Min (set (pq st))"
    let ?u = "snd ?top"
    let ?st1 = "st\<lparr>pq := remove1 ?top (pq st)\<rparr>"
    have top_in: "?top \<in> set (pq st)" using Min_pq(1)[OF ne] .
    from D(7)[OF top_in] have ur: "0 \<le> ?u" "?u < n" and tl: "dist st ! nat ?u \<le> fst ?top"
      and tm: "fst ?top < INT_MAX" by simp_all
    have ib: "in_bounds (dist ?st1) ?u" using ur D(1) by (simp add: in_bounds_def)
    from "1.prems"(2) have W0: "0 \<le> W"
      and B1: "\<And>x. 0 \<le> x \<Longrightarrow> nat x < length (dist st) \<Longrightarrow> dist st ! nat x < INT_MAX \<Longrightarrow>
                dist st ! nat x \<le> int (length (settled st)) * W"
      and B2: "\<And>i. i < length (settled st) \<Longrightarrow> dist st ! nat (settled st ! i) \<le> int i * W"
      unfolding dbound_def by blast+
    show ?thesis
    proof (cases "dist st ! nat ?u < fst ?top")
      case True
      have eq: "dijkstra_loop g st = dijkstra_loop g ?st1"
        using ne ib True by (subst dijkstra_loop.simps) (simp add: Let_def)
      have inv1: "dinv n g s u [] ?st1" using inv ne True by (rule dinv_pop_stale)
      have b1: "dbound W ?st1" using "1.prems"(2) by (simp add: dbound_def)
      from "1.IH"(1)[OF ne refl refl refl refl _ _ inv1 b1 wf nn up] ib True eq
      show ?thesis by simp
    next
      case False
      let ?st2 = "?st1\<lparr>settled := settled ?st1 @ [?u]\<rparr>"
      have ibg: "in_bounds g ?u" using ur wf by (simp add: in_bounds_def wf_graph_def)
      have inv2: "dinv n g s ?u (g ! nat ?u) ?st2"
        using dinv_pop_settle[OF inv ne False] by simp
      have ulen: "nat ?u < length (dist st)" using ur D(1) by simp
      have du: "dist st ! nat ?u < INT_MAX" using tl tm by simp
      have b2: "dbound W ?st2"
        unfolding dbound_def
      proof (intro conjI allI impI)
        show "0 \<le> W" by (rule W0)
      next
        fix x assume x: "0 \<le> x \<and> nat x < length (dist ?st2) \<and> dist ?st2 ! nat x < INT_MAX"
        with B1[of x] have "dist st ! nat x \<le> int (length (settled st)) * W" by simp
        also have "\<dots> \<le> int (length (settled st)) * W + W" using W0 by simp
        also have "\<dots> = int (length (settled ?st2)) * W" by (simp add: algebra_simps)
        finally show "dist ?st2 ! nat x \<le> int (length (settled ?st2)) * W" by simp
      next
        fix i assume i: "i < length (settled ?st2)"
        show "dist ?st2 ! nat (settled ?st2 ! i) \<le> int i * W"
        proof (cases "i < length (settled st)")
          case True
          with B2[OF True] show ?thesis by (simp add: nth_append)
        next
          case False
          with i have "i = length (settled st)" by simp
          with B1[OF ur(1) ulen du] show ?thesis by (simp add: nth_append)
        qed
      qed
      from relax_edges_bounded[OF wf nn up nW inv2 b2 _ ibg]
      obtain st3 where r: "relax_edges ?u (g ! nat ?u) ?st2 = Inr st3" and b3: "dbound W st3"
        by auto
      have eq: "dijkstra_loop g st = dijkstra_loop g st3"
        using ne ib False ibg r by (subst dijkstra_loop.simps) (simp add: Let_def)
      have inv3: "dinv n g s ?u [] st3"
        using relax_edges_dinv[OF wf nn r inv2 _ ibg] by simp
      from "1.IH"(2)[OF ne refl refl refl refl _ _ _ r inv3 b3 wf nn up] ib False ibg eq
      show ?thesis by simp
    qed
  qed
qed

lemma final_reach_lt:
  assumes wf: "wf_graph n g" and up: "weights_upto W g" and nW: "n * W < INT_MAX"
    and inv: "dinv n g s u [] st" and emp: "pq st = []" and b: "dbound W st"
  shows "is_path g s p v \<Longrightarrow> 0 \<le> v \<and> v < n \<and> dist st ! nat v < INT_MAX"
proof (induction p arbitrary: v rule: rev_induct)
  case Nil
  note D = dinvD[OF inv]
  from Nil have "v = s" by simp
  with D(2,3,4) show ?case by (simp add: INT_MAX_def)
next
  case (snoc e p)
  note D = dinvD[OF inv]
  from b have W0: "0 \<le> W"
    and B2: "\<And>i. i < length (settled st) \<Longrightarrow> dist st ! nat (settled st ! i) \<le> int i * W"
    unfolding dbound_def by blast+
  from is_path_snocD[OF snoc.prems] obtain x where
    x: "is_path g s p x" "in_bounds g x" "e \<in> set (g ! nat x)" "v = fst e" by blast
  from snoc.IH[OF x(1)] have xr: "0 \<le> x \<and> x < n" and dx: "dist st ! nat x < INT_MAX"
    by simp_all
  from wf_edge[OF wf xr x(3)] x(4) have vr: "0 \<le> v" "v < n" by simp_all
  from upto_edge[OF up wf xr x(3)] have w: "snd e \<le> W" .
  from D(8)[OF _ _ dx] xr emp have xs: "x \<in> set (settled st)" by simp
  then obtain i where i: "i < length (settled st)" "settled st ! i = x"
    by (auto simp: in_set_conv_nth)
  from B2[OF i(1)] i(2) have "dist st ! nat x \<le> int i * W" by simp
  moreover have "int i * W + W \<le> int (length (settled st)) * W"
  proof -
    from i(1) have "int i + 1 \<le> int (length (settled st))" by simp
    then have "(int i + 1) * W \<le> int (length (settled st)) * W" using W0 by (rule mult_right_mono)
    then show ?thesis by (simp add: algebra_simps)
  qed
  moreover have "int (length (settled st)) * W \<le> n * W"
    using settled_length[OF inv] W0 by (rule mult_right_mono)
  moreover from D(10)[OF xs x(3)] x(4) have "dist st ! nat v \<le> dist st ! nat x + snd e" by simp
  ultimately have "dist st ! nat v < INT_MAX" using w nW by linarith
  with vr show ?case by simp
qed

lemma dbound_init:
  assumes "0 \<le> W" "0 \<le> source" "source < n"
  shows "dbound W \<lparr>dist = (replicate (nat n) INT_MAX)[nat source := 0], pq = [(0, source)], settled = []\<rparr>"
  unfolding dbound_def using assms
  by (auto simp: nth_list_update split: if_splits)

lemma dijkstra_run_bounded:
  assumes wf: "wf_graph n g" and nn: "nonneg_weights g"
    and src: "0 \<le> source" "source < n"
    and up: "weights_upto W g" and nW: "n * W < INT_MAX"
  shows "\<exists>st W'. dijkstra_run n g source = Inr st \<and> dinv n g source 0 [] st \<and> pq st = [] \<and>
           dbound W' st \<and> weights_upto W' g \<and> n * W' < INT_MAX"
proof -
  define W' where "W' = max W 0"
  have up': "weights_upto W' g" using up unfolding weights_upto_def W'_def by fastforce
  have nW': "n * W' < INT_MAX"
  proof (cases "0 \<le> W")
    case True
    with nW show ?thesis by (simp add: W'_def max_def)
  next
    case False
    then show ?thesis by (simp add: W'_def max_def INT_MAX_def)
  qed
  let ?st0 = "\<lparr>dist = (replicate (nat n) INT_MAX)[nat source := 0], pq = [(0, source)], settled = []\<rparr>"
  have run: "dijkstra_run n g source = dijkstra_loop g ?st0"
    using src by (simp add: dijkstra_run_def in_bounds_def Let_def)
  have inv0: "dinv n g source 0 [] ?st0" using src by (rule dinv_init)
  have b0: "dbound W' ?st0" using src by (intro dbound_init) (simp_all add: W'_def)
  from dijkstra_loop_bounded[OF wf nn up' nW' inv0 b0] obtain st where
    st: "dijkstra_loop g ?st0 = Inr st" "dbound W' st" by blast
  from dijkstra_loop_dinv[OF wf nn st(1) inv0] obtain u' where "dinv n g source u' [] st" "pq st = []"
    by blast
  then have "dinv n g source 0 [] st" "pq st = []" by (auto intro: dinv_nil_any)
  with run st up' nW' show ?thesis by auto
qed

lemma set_weight_edge:
  assumes "u < length g" "k < length (g ! u)" "snd (g ! u ! k) \<le> w'"
    and "e \<in> set (set_weight g u k w' ! x)" "x < length g"
  shows "\<exists>e0 \<in> set (g ! x). fst e0 = fst e \<and> snd e0 \<le> snd e"
proof (cases "x = u")
  case True
  with assms(1,4) have "e \<in> set ((g ! u)[k := (fst (g ! u ! k), w')])"
    by (simp add: set_weight_def)
  then have "e = (fst (g ! u ! k), w') \<or> e \<in> set (g ! u)"
    using set_update_subset_insert[of "g ! u" k "(fst (g ! u ! k), w')"] by auto
  then show ?thesis
  proof
    assume "e = (fst (g ! u ! k), w')"
    with assms(2,3) True show ?thesis by (intro bexI[of _ "g ! u ! k"]) auto
  next
    assume "e \<in> set (g ! u)"
    with True show ?thesis by auto
  qed
next
  case False
  with assms(4,5) have "e \<in> set (g ! x)" by (simp add: set_weight_def)
  then show ?thesis by auto
qed

lemma path_set_weight:
  assumes "u < length g" "k < length (g ! u)" "snd (g ! u ! k) \<le> w'"
  shows "is_path (set_weight g u k w') s p t \<Longrightarrow>
         \<exists>q. is_path g s q t \<and> path_weight q \<le> path_weight p"
proof (induction p arbitrary: s)
  case Nil
  then have "is_path g s [] t \<and> path_weight [] \<le> path_weight []" by simp
  then show ?case by blast
next
  case (Cons e p)
  from Cons.prems have ib: "in_bounds (set_weight g u k w') s"
    and e: "e \<in> set (set_weight g u k w' ! nat s)"
    and rest: "is_path (set_weight g u k w') (fst e) p t" by simp_all
  from ib have ib': "in_bounds g s" by (simp add: in_bounds_def set_weight_def)
  then have "nat s < length g" by (simp add: in_bounds_def nat_less_iff)
  from set_weight_edge[OF assms e this] obtain e0 where
    e0: "e0 \<in> set (g ! nat s)" "fst e0 = fst e" "snd e0 \<le> snd e" by blast
  from Cons.IH[OF rest] obtain q where q: "is_path g (fst e) q t" "path_weight q \<le> path_weight p"
    by blast
  have "is_path g s (e0 # q) t" using ib' e0 q(1) by simp
  moreover have "path_weight (e0 # q) \<le> path_weight (e # p)"
    using e0(3) q(2) by (simp add: path_weight_def)
  ultimately show ?case by blast
qed




subsection \<open>A run that returns is a run on a graph of n vertices\<close>








subsection \<open>The example graph\<close>

lemma example_graph_ok:
  "wf_graph 5 example_graph" "nonneg_weights example_graph" "weights_upto 4 example_graph"
  by (simp_all add: wf_graph_def nonneg_weights_def weights_upto_def example_graph_def)

lemma example_graph_run: "dijkstra 5 example_graph 0 = Inr [0, 4, 2, 6, 7]"
  by code_simp

section \<open>The claims\<close>

subsection \<open>C1: the distances are the shortest ones\<close>

text \<open>
  Claim C1, with the bound it needs. For every graph of n vertices (an adjacency list
  of length n whose edges all lead to vertices in [0, n)) with edge weights between 0
  and some W such that n times W is below \<open>INT_MAX\<close>, and for every source in
  [0, n), \<^verbatim>\<open>dijkstra\<close> returns an array of length n that gives, for every vertex
  reachable from the source, exactly the least sum of edge weights over all paths from
  the source to it, and \<open>INT_MAX\<close> for every vertex that is not reachable.
\<close>

theorem dijkstra_shortest_distances:
  assumes wf: "wf_graph n g" and nn: "nonneg_weights g"
    and src: "0 \<le> source" "source < n"
    and up: "weights_upto W g" and nW: "n * W < INT_MAX"
  shows "\<exists>ds. dijkstra n g source = Inr ds \<and> length ds = nat n \<and>
           (\<forall>v. 0 \<le> v \<and> v < n \<longrightarrow>
              (if reachable g source v then is_shortest g source v (ds ! nat v)
               else ds ! nat v = INT_MAX))"
proof -
  from dijkstra_run_bounded[OF assms] obtain st W' where
    st: "dijkstra_run n g source = Inr st" "dinv n g source 0 [] st" "pq st = []"
        "dbound W' st" "weights_upto W' g" "n * W' < INT_MAX" by blast
  note D = dinvD[OF st(2)]
  have res: "dijkstra n g source = Inr (dist st)" using st(1) by (simp add: dijkstra_def)
  have "if reachable g source v then is_shortest g source v (dist st ! nat v)
        else dist st ! nat v = INT_MAX" if v: "0 \<le> v" "v < n" for v
  proof (cases "reachable g source v")
    case True
    then obtain p where p: "is_path g source p v" unfolding reachable_def by blast
    from final_reach_lt[OF wf st(5,6,2,3,4) p] have lt: "dist st ! nat v < INT_MAX" by simp
    from D(16)[OF v lt] obtain q where q: "is_path g source q v" "path_weight q = dist st ! nat v"
      by blast
    have "\<forall>p. is_path g source p v \<longrightarrow> dist st ! nat v \<le> path_weight p"
      using final_le_path[OF wf nn st(2,3)] by blast
    with q True show ?thesis unfolding is_shortest_def by auto
  next
    case False
    have "\<not> dist st ! nat v < INT_MAX"
    proof
      assume "dist st ! nat v < INT_MAX"
      from D(16)[OF v this] False show False unfolding reachable_def by blast
    qed
    with D(6)[OF v] False show ?thesis by simp
  qed
  with res D(1) show ?thesis by auto
qed

text \<open>
  The run of C1 on the example graph: the distances are 0, 4, 2, 6 and 7, and 7 is the
  weight of a shortest path from vertex 0 to vertex 4.
\<close>

theorem dijkstra_shortest_distances_witness:
  "wf_graph 5 example_graph \<and> nonneg_weights example_graph \<and> weights_upto 4 example_graph \<and>
   (5::int) * 4 < INT_MAX \<and> dijkstra 5 example_graph 0 = Inr [0, 4, 2, 6, 7] \<and>
   is_shortest example_graph 0 4 7"
proof -
  have b: "(5::int) * 4 < INT_MAX" by (simp add: INT_MAX_def)
  from dijkstra_shortest_distances[OF example_graph_ok(1,2) _ _ example_graph_ok(3) b, of 0]
  obtain ds where ds: "dijkstra 5 example_graph 0 = Inr ds"
    "\<forall>v. 0 \<le> v \<and> v < 5 \<longrightarrow>
       (if reachable example_graph 0 v then is_shortest example_graph 0 v (ds ! nat v)
        else ds ! nat v = INT_MAX)"
    by auto
  from ds(1) example_graph_run have "ds = [0, 4, 2, 6, 7]" by simp
  with ds(2)[rule_format, of 4] have "is_shortest example_graph 0 4 7"
    by (simp add: INT_MAX_def split: if_splits)
  with example_graph_ok b example_graph_run show ?thesis by simp
qed

text \<open>
  Without the bound C1 fails. With an edge of weight \<open>INT_MAX\<close> from vertex 0 to
  vertex 1 and an edge of weight 1 from there to vertex 2, the test
  \<^verbatim>\<open>dist[u] + weight < dist[v]\<close> is false for the first edge, vertex 1 is never put into
  the queue, and vertex 2, which can be reached, is reported with the value that
  stands for a vertex out of reach. Every path to it weighs 2147483648.
\<close>

theorem dijkstra_sentinel_counterexample:
  "dijkstra 3 [[(1, 2147483647)], [(2, 1)], []] 0 = Inr [0, 2147483647, 2147483647] \<and>
   reachable [[(1, 2147483647)], [(2, 1)], []] 0 2 \<and>
   \<not> is_shortest [[(1, 2147483647)], [(2, 1)], []] 0 2 2147483647"
proof -
  let ?g = "[[(1, 2147483647)], [(2, 1)], []] :: graph"
  have 1: "dijkstra 3 ?g 0 = Inr [0, 2147483647, 2147483647]" by code_simp
  have "is_path ?g 0 [(1, 2147483647), (2, 1)] 2" by (simp add: in_bounds_def)
  then have 2: "reachable ?g 0 2" unfolding reachable_def by blast
  have 3: "path_weight p = 2147483648" if "is_path ?g 0 p 2" for p
  proof -
    from that obtain p1 where p1: "p = (1, 2147483647) # p1" "is_path ?g 1 p1 2"
      by (cases p) auto
    from p1(2) obtain p2 where p2: "p1 = (2, 1) # p2" "is_path ?g 2 p2 2"
      by (cases p1) auto
    from p2(2) have "p2 = []" by (cases p2) auto
    with p1 p2 show ?thesis by (simp add: path_weight_def)
  qed
  have "\<not> is_shortest ?g 0 2 2147483647"
  proof
    assume "is_shortest ?g 0 2 2147483647"
    then obtain p where "is_path ?g 0 p 2" "path_weight p = 2147483647"
      unfolding is_shortest_def by blast
    with 3[of p] show False by simp
  qed
  with 1 2 show ?thesis by blast
qed

subsection \<open>C2: a returned path is a path of the grid\<close>

text \<open>
  Claim C2, for a walkable start and without the length. For every grid, start cell
  and goal cell, if \<^verbatim>\<open>aStarSearch\<close> returns a sequence that is not empty and the start
  cell is walkable, then the first cell of the sequence is the start, the last is the
  goal, every cell in it is walkable, and consecutive cells differ by exactly one
  orthogonal step.
\<close>

theorem aStar_path_valid:
  assumes "aStarSearch grid sr sc gr gc = Some (Inr path)" and "path \<noteq> []"
    and "walkable grid (sr, sc)"
  shows "grid_path grid (sr, sc) (gr, gc) path"
proof -
  from aStarSearch_Inr[OF assms(1)] obtain stF where
    "aStarSearch_run grid sr sc gr gc = Some (Inr (path, stF))" ..
  from aStarSearch_run_Inr(2)[OF this assms(2)] have "path_ok grid (sr, sc) (gr, gc) path" .
  with assms(2,3) show ?thesis
    by (auto simp: path_ok_def grid_path_def list_all_iff)
qed

text \<open>
  The run of C2 on the example grid, from the top left corner to the bottom right
  one.
\<close>

theorem aStar_path_valid_witness:
  "aStarSearch example_grid 0 0 2 2 = Some (Inr [(0, 0), (1, 0), (2, 0), (2, 1), (2, 2)]) \<and>
   walkable example_grid (0, 0) \<and>
   grid_path example_grid (0, 0) (2, 2) [(0, 0), (1, 0), (2, 0), (2, 1), (2, 2)]"
proof -
  have w: "walkable example_grid (0, 0)" by (simp add: walkable_def example_grid_def)
  from aStar_path_valid[OF example_grid_run _ w] example_grid_run w show ?thesis by simp
qed

text \<open>
  Two runs against C2 as it is stated. On \<open>detour_grid\<close> the search from (1, 1) to
  (2, 6) returns a path of ten steps although one of eight steps exists: when (0, 2) is
  expanded, the node (0, 3), waiting in the open set with \<open>fCost\<close> 10, is lowered to
  \<open>fCost\<close> 8 in place, underneath the front element (0, 4) of \<open>fCost\<close> 10; the copy
  pushed next stops below the lowered one, (0, 4) is popped first and is closed with
  a cost of 6 instead of 4. And a search that starts on an obstacle returns a path
  through that obstacle.
\<close>

theorem aStar_not_shortest_counterexample:
  "aStarSearch detour_grid 1 1 2 6
     = Some (Inr [(1, 1), (2, 1), (2, 2), (2, 3), (2, 4), (1, 4), (0, 4), (0, 5), (0, 6),
                  (1, 6), (2, 6)]) \<and>
   grid_path detour_grid (1, 1) (2, 6)
     [(1, 1), (0, 1), (0, 2), (0, 3), (0, 4), (0, 5), (0, 6), (1, 6), (2, 6)] \<and>
   aStarSearch [[1, 0]] 0 0 0 1 = Some (Inr [(0, 0), (0, 1)]) \<and>
   \<not> walkable [[1, 0]] (0, 0)"
  by code_simp

subsection \<open>C3: no argument is validated\<close>




subsection \<open>C4: empty inputs\<close>

text \<open>
  Claim C4, as the code has it. With zero vertices \<^verbatim>\<open>dijkstra\<close> writes
  \<^verbatim>\<open>dist[source]\<close> into an empty vector; with a grid of zero rows \<^verbatim>\<open>aStarSearch\<close>
  reads \<^verbatim>\<open>grid[0]\<close> of an empty vector; with rows of zero columns it reads
  \<^verbatim>\<open>allNodes[startRow][startCol]\<close> of an empty row. All three happen before the loop
  and none is an error that the function raises.
\<close>

theorem empty_input_out_of_bounds:
  "dijkstra 0 g source = Inl OutOfBounds \<and>
   aStarSearch [] sr sc gr gc = Some (Inl OutOfBounds) \<and>
   (grid \<noteq> [] \<and> grid ! 0 = [] \<longrightarrow> aStarSearch grid sr sc gr gc = Some (Inl OutOfBounds))"
  by (simp add: dijkstra_def dijkstra_run_def in_bounds_def aStarSearch_def aStarSearch_run_def
      isValid_def Let_def)

text \<open>
  C4 on the grid of one empty row.
\<close>

theorem empty_input_out_of_bounds_witness:
  "[[]] \<noteq> ([] :: int list list) \<and> [[]] ! 0 = ([] :: int list) \<and>
   aStarSearch [[]] 0 0 0 0 = Some (Inl OutOfBounds)"
  using empty_input_out_of_bounds[of _ _ 0 0 0 0 "[[]]"] by simp

text \<open>
  The three empty inputs run into an index out of range, not into an error for an
  empty graph.
\<close>

theorem empty_input_counterexample:
  "dijkstra 0 [] 0 = Inl OutOfBounds \<and> aStarSearch [] 0 0 0 0 = Some (Inl OutOfBounds) \<and>
   aStarSearch [[]] 0 0 0 0 = Some (Inl OutOfBounds)"
  by code_simp

subsection \<open>C5: the relaxation of a neighbor\<close>

text \<open>
  Claim C5, with the costs the code starts from. At the start of the search every
  node has \<open>gCost\<close> 0 and no parent, the start node included. The candidate cost of a
  neighbor is the \<^verbatim>\<open>float\<close> sum of the cost of \<open>current\<close> and 1. The relaxation sets
  the \<open>gCost\<close> of the neighbor to the candidate, its \<open>hCost\<close> to the Manhattan
  distance to the goal, its \<open>fCost\<close> to the \<^verbatim>\<open>float\<close> sum of the two and its parent
  to \<open>current\<close>, changes no other node and adds the neighbor once to the open set,
  exactly when the candidate is below the stored cost or the neighbor has no parent;
  otherwise the state stays as it is. As long as the cost of \<open>current\<close> is not
  negative and the new \<open>fCost\<close> does not pass \<open>2 ^ 24\<close>, none of the sums is
  rounded: the candidate is the cost of \<open>current\<close> plus one, and the new \<open>fCost\<close> is
  that plus the number of rows and columns between the neighbor and the goal.
\<close>

theorem relax_mutates_iff:
  "(gCost (allNodes (aStar_init sr sc gr gc) c) = 0 \<and>
    parent (allNodes (aStar_init sr sc gr gc) c) = None) \<and>
   (if fadd (gCost (allNodes st cur)) 1 < gCost (allNodes st (nr, nc)) \<or>
       parent (allNodes st (nr, nc)) = None
    then gCost (allNodes (relax gr gc cur nr nc st) (nr, nc)) = fadd (gCost (allNodes st cur)) 1 \<and>
         hCost (allNodes (relax gr gc cur nr nc st) (nr, nc)) = heuristicManhattan nr nc gr gc \<and>
         fCost (allNodes (relax gr gc cur nr nc st) (nr, nc))
           = fadd (fadd (gCost (allNodes st cur)) 1) (heuristicManhattan nr nc gr gc) \<and>
         parent (allNodes (relax gr gc cur nr nc st) (nr, nc)) = Some cur \<and>
         (\<forall>c'. c' \<noteq> (nr, nc) \<longrightarrow> allNodes (relax gr gc cur nr nc st) c' = allNodes st c') \<and>
         mset (openSet (relax gr gc cur nr nc st)) = add_mset (nr, nc) (mset (openSet st))
    else relax gr gc cur nr nc st = st) \<and>
   (0 \<le> gCost (allNodes st cur) \<and>
    gCost (allNodes st cur) + 1 + (\<bar>nr - gr\<bar> + \<bar>nc - gc\<bar>) \<le> 16777216
      \<longrightarrow> fadd (gCost (allNodes st cur)) 1 = gCost (allNodes st cur) + 1 \<and>
          heuristicManhattan nr nc gr gc = \<bar>nr - gr\<bar> + \<bar>nc - gc\<bar> \<and>
          fadd (fadd (gCost (allNodes st cur)) 1) (heuristicManhattan nr nc gr gc)
            = gCost (allNodes st cur) + 1 + (\<bar>nr - gr\<bar> + \<bar>nc - gc\<bar>))"
proof (intro conjI impI)
  show "gCost (allNodes (aStar_init sr sc gr gc) c) = 0"
    by (simp add: aStar_init_def Let_def new_Node_def split_beta)
  show "parent (allNodes (aStar_init sr sc gr gc) c) = None"
    by (simp add: aStar_init_def Let_def new_Node_def split_beta)
  show "if fadd (gCost (allNodes st cur)) 1 < gCost (allNodes st (nr, nc)) \<or>
       parent (allNodes st (nr, nc)) = None
    then gCost (allNodes (relax gr gc cur nr nc st) (nr, nc)) = fadd (gCost (allNodes st cur)) 1 \<and>
         hCost (allNodes (relax gr gc cur nr nc st) (nr, nc)) = heuristicManhattan nr nc gr gc \<and>
         fCost (allNodes (relax gr gc cur nr nc st) (nr, nc))
           = fadd (fadd (gCost (allNodes st cur)) 1) (heuristicManhattan nr nc gr gc) \<and>
         parent (allNodes (relax gr gc cur nr nc st) (nr, nc)) = Some cur \<and>
         (\<forall>c'. c' \<noteq> (nr, nc) \<longrightarrow> allNodes (relax gr gc cur nr nc st) c' = allNodes st c') \<and>
         mset (openSet (relax gr gc cur nr nc st)) = add_mset (nr, nc) (mset (openSet st))
    else relax gr gc cur nr nc st = st"
    by (auto simp: relax_def Let_def mset_pq_push)
next
  assume a: "0 \<le> gCost (allNodes st cur) \<and>
    gCost (allNodes st cur) + 1 + (\<bar>nr - gr\<bar> + \<bar>nc - gc\<bar>) \<le> 16777216"
  from a have "\<bar>gCost (allNodes st cur) + 1\<bar> \<le> 16777216" by arith
  then show g: "fadd (gCost (allNodes st cur)) 1 = gCost (allNodes st cur) + 1"
    by (rule fadd_exact)
  from a have "\<bar>\<bar>nr - gr\<bar> + \<bar>nc - gc\<bar>\<bar> \<le> 16777216" by arith
  then show h: "heuristicManhattan nr nc gr gc = \<bar>nr - gr\<bar> + \<bar>nc - gc\<bar>"
    unfolding heuristicManhattan_def by (rule float_round_exact)
  from a have "\<bar>gCost (allNodes st cur) + 1 + (\<bar>nr - gr\<bar> + \<bar>nc - gc\<bar>)\<bar> \<le> 16777216" by arith
  then show "fadd (fadd (gCost (allNodes st cur)) 1) (heuristicManhattan nr nc gr gc)
            = gCost (allNodes st cur) + 1 + (\<bar>nr - gr\<bar> + \<bar>nc - gc\<bar>)"
    unfolding g h by (rule fadd_exact)
qed

text \<open>
  C5 on the first relaxation of a search from (0, 0) to (2, 2), which changes the
  state, and on the same relaxation once more, which does not.
\<close>

theorem relax_mutates_iff_witness:
  "parent (allNodes (aStar_init 0 0 2 2) (0, 1)) = None \<and>
   gCost (allNodes (relax 2 2 (0, 0) 0 1 (aStar_init 0 0 2 2)) (0, 1)) = 1 \<and>
   fCost (allNodes (relax 2 2 (0, 0) 0 1 (aStar_init 0 0 2 2)) (0, 1)) = 4 \<and>
   parent (allNodes (relax 2 2 (0, 0) 0 1 (aStar_init 0 0 2 2)) (0, 1)) = Some (0, 0) \<and>
   mset (openSet (relax 2 2 (0, 0) 0 1 (aStar_init 0 0 2 2)))
     = add_mset (0, 1) (mset (openSet (aStar_init 0 0 2 2))) \<and>
   relax 2 2 (0, 0) 0 1 (relax 2 2 (0, 0) 0 1 (aStar_init 0 0 2 2))
     = relax 2 2 (0, 0) 0 1 (aStar_init 0 0 2 2)"
proof -
  let ?st0 = "aStar_init 0 0 2 2"
  let ?st1 = "relax 2 2 (0, 0) 0 1 ?st0"
  have p0: "parent (allNodes ?st0 (0, 1)) = None" "gCost (allNodes ?st0 (0, 0)) = 0"
    using relax_mutates_iff[of 0 0 2 2 "(0, 1)"] relax_mutates_iff[of 0 0 2 2 "(0, 0)"] by simp_all
  have small: "0 \<le> gCost (allNodes ?st0 (0, 0)) \<and>
      gCost (allNodes ?st0 (0, 0)) + 1 + (\<bar>0 - 2\<bar> + \<bar>1 - 2\<bar>) \<le> (16777216 :: int)"
    using p0 by simp
  from relax_mutates_iff[of 0 0 2 2 "(0, 0)" ?st0 "(0, 0)" 0 1, THEN conjunct2, THEN conjunct2,
      THEN mp, OF small] p0
  have e0: "fadd 0 1 = 1" "heuristicManhattan 0 1 2 2 = 3" "fadd 1 3 = 4"
    by auto
  from relax_mutates_iff[of 0 0 2 2 "(0, 0)" ?st0 "(0, 0)" 0 1] p0 e0
  have s1: "gCost (allNodes ?st1 (0, 1)) = 1" "fCost (allNodes ?st1 (0, 1)) = 4"
    "parent (allNodes ?st1 (0, 1)) = Some (0, 0)"
    "mset (openSet ?st1) = add_mset (0, 1) (mset (openSet ?st0))"
    "allNodes ?st1 (0, 0) = allNodes ?st0 (0, 0)"
    by simp_all
  from relax_mutates_iff[of 0 0 2 2 "(0, 0)" ?st1 "(0, 0)" 0 1] s1 p0 e0
  have "relax 2 2 (0, 0) 0 1 ?st1 = ?st1" by simp
  with p0 s1 show ?thesis by simp
qed

text \<open>
  At the start of the search the cost of a node other than the start is 0 as well.
\<close>

theorem initial_cost_counterexample:
  "gCost (allNodes (aStar_init 0 0 2 2) (1, 1)) = 0 \<and>
   gCost (allNodes (aStar_init 0 0 2 2) (0, 0)) = 0"
  by (simp add: aStar_init_def Let_def new_Node_def)

subsection \<open>C6: no vertex is expanded twice\<close>



subsection \<open>C7: a heavier edge lowers no distance\<close>

text \<open>
  Claim C7, with the bound it needs. For every graph of n vertices with non-negative
  weights and every source in [0, n), if the weight of one edge is raised and the
  weights after that are still at most some W with n times W below \<open>INT_MAX\<close>,
  then \<^verbatim>\<open>dijkstra\<close> returns an array on both graphs and no entry of the second array
  is below the entry of the first.
\<close>

theorem dijkstra_monotone:
  assumes wf: "wf_graph n g" and nn: "nonneg_weights g"
    and src: "0 \<le> source" "source < n"
    and uk: "u < length g" "k < length (g ! u)" and inc: "snd (g ! u ! k) \<le> w'"
    and up: "weights_upto W (set_weight g u k w')" and nW: "n * W < INT_MAX"
  shows "\<exists>ds ds'. dijkstra n g source = Inr ds \<and>
                  dijkstra n (set_weight g u k w') source = Inr ds' \<and>
                  (\<forall>v. 0 \<le> v \<and> v < n \<longrightarrow> ds ! nat v \<le> ds' ! nat v)"
proof -
  let ?g' = "set_weight g u k w'"
  have mem: "\<And>es e. es \<in> set ?g' \<Longrightarrow> e \<in> set es \<Longrightarrow>
              \<exists>es0 \<in> set g. \<exists>e0 \<in> set es0. fst e0 = fst e \<and> snd e0 \<le> snd e"
  proof -
    fix es e assume "es \<in> set ?g'" "e \<in> set es"
    then obtain x where x: "x < length ?g'" "?g' ! x = es" by (auto simp: in_set_conv_nth)
    then have xl: "x < length g" by (simp add: set_weight_def)
    from set_weight_edge[OF uk inc _ xl, of e] x \<open>e \<in> set es\<close>
    obtain e0 where "e0 \<in> set (g ! x)" "fst e0 = fst e" "snd e0 \<le> snd e" by auto
    with xl show "\<exists>es0 \<in> set g. \<exists>e0 \<in> set es0. fst e0 = fst e \<and> snd e0 \<le> snd e"
      by (intro bexI[of _ "g ! x"] bexI[of _ e0]) auto
  qed
  have wf': "wf_graph n ?g'"
    unfolding wf_graph_def
  proof (intro conjI ballI)
    show "int (length ?g') = n" using wf by (simp add: wf_graph_def set_weight_def)
  next
    fix es e assume "es \<in> set ?g'" "e \<in> set es"
    from mem[OF this] wf show "0 \<le> fst e" unfolding wf_graph_def by force
  next
    fix es e assume "es \<in> set ?g'" "e \<in> set es"
    from mem[OF this] wf show "fst e < n" unfolding wf_graph_def by force
  qed
  have nn': "nonneg_weights ?g'"
    unfolding nonneg_weights_def
  proof (intro ballI)
    fix es e assume "es \<in> set ?g'" "e \<in> set es"
    from mem[OF this] nn show "0 \<le> snd e" unfolding nonneg_weights_def by force
  qed
  from dijkstra_run_bounded[OF wf' nn' src up nW] obtain st' W' where
    st': "dijkstra_run n ?g' source = Inr st'" "dinv n ?g' source 0 [] st'" "pq st' = []"
         "dbound W' st'" "weights_upto W' ?g'" "n * W' < INT_MAX" by blast
  have up0: "weights_upto W' g"
    unfolding weights_upto_def
  proof (intro ballI)
    fix es e assume es: "es \<in> set g" "e \<in> set es"
    then obtain x where x: "x < length g" "g ! x = es" by (auto simp: in_set_conv_nth)
    show "snd e \<le> W'"
    proof (cases "x = u \<and> e = g ! u ! k")
      case True
      have "(fst (g ! u ! k), w') \<in> set (?g' ! u)"
        using uk by (simp add: set_weight_def set_update_memI)
      moreover have "?g' ! u \<in> set ?g'"
        using uk by (intro nth_mem) (simp add: set_weight_def)
      ultimately have "w' \<le> W'" using st'(5) unfolding weights_upto_def by force
      with True inc show ?thesis by simp
    next
      case False
      have "e \<in> set (?g' ! x)"
      proof (cases "x = u")
        case xu: True
        with False es x have ne: "e \<noteq> g ! u ! k" by simp
        from es x xu obtain j where j: "j < length (g ! u)" "g ! u ! j = e"
          by (auto simp: in_set_conv_nth)
        with ne have "j \<noteq> k" by auto
        with j have "(g ! u)[k := (fst (g ! u ! k), w')] ! j = e" by simp
        with j(1) have "e \<in> set ((g ! u)[k := (fst (g ! u ! k), w')])"
          by (metis length_list_update nth_mem)
        with xu uk show ?thesis by (simp add: set_weight_def)
      next
        case False
        with es x show ?thesis by (simp add: set_weight_def)
      qed
      moreover have "?g' ! x \<in> set ?g'"
        using x by (intro nth_mem) (simp add: set_weight_def)
      ultimately show ?thesis using st'(5) unfolding weights_upto_def by force
    qed
  qed
  from dijkstra_run_bounded[OF wf nn src up0 st'(6)] obtain st W0 where
    st: "dijkstra_run n g source = Inr st" "dinv n g source 0 [] st" "pq st = []" by blast
  note D = dinvD[OF st(2)] and D' = dinvD[OF st'(2)]
  have "dist st ! nat v \<le> dist st' ! nat v" if v: "0 \<le> v" "v < n" for v
  proof (cases "dist st' ! nat v < INT_MAX")
    case True
    from D'(16)[OF v True] obtain p where p: "is_path ?g' source p v" "path_weight p = dist st' ! nat v"
      by blast
    from path_set_weight[OF uk inc p(1)] obtain q where
      q: "is_path g source q v" "path_weight q \<le> path_weight p" by blast
    from final_le_path[OF wf nn st(2,3) q(1)] q(2) p(2) show ?thesis by simp
  next
    case False
    with D(6)[OF v] show ?thesis by simp
  qed
  moreover have "dijkstra n g source = Inr (dist st)" using st(1) by (simp add: dijkstra_def)
  moreover have "dijkstra n ?g' source = Inr (dist st')" using st'(1) by (simp add: dijkstra_def)
  ultimately show ?thesis by auto
qed

text \<open>
  C7 on the example graph, with the weight of the edge from vertex 0 to vertex 1 raised
  from 4 to 5.
\<close>

theorem dijkstra_monotone_witness:
  "wf_graph 5 example_graph \<and> nonneg_weights example_graph \<and>
   snd (example_graph ! 0 ! 0) \<le> 5 \<and> weights_upto 5 (set_weight example_graph 0 0 5) \<and>
   (5::int) * 5 < INT_MAX \<and>
   (\<exists>ds ds'. dijkstra 5 example_graph 0 = Inr ds \<and>
             dijkstra 5 (set_weight example_graph 0 0 5) 0 = Inr ds' \<and> ds ! 1 \<le> ds' ! 1)"
proof -
  have b: "(5::int) * 5 < INT_MAX" by (simp add: INT_MAX_def)
  have l: "0 < length example_graph" "0 < length (example_graph ! 0)"
    by (simp_all add: example_graph_def)
  have i: "snd (example_graph ! 0 ! 0) \<le> 5" by (simp add: example_graph_def)
  have u: "weights_upto 5 (set_weight example_graph 0 0 5)"
    by (simp add: weights_upto_def set_weight_def example_graph_def)
  from dijkstra_monotone[OF example_graph_ok(1,2) _ _ l i u b, of 0]
  obtain ds ds' where d: "dijkstra 5 example_graph 0 = Inr ds"
    "dijkstra 5 (set_weight example_graph 0 0 5) 0 = Inr ds'"
    "\<forall>v. 0 \<le> v \<and> v < 5 \<longrightarrow> ds ! nat v \<le> ds' ! nat v"
    by auto
  from d(3)[rule_format, of 1] have "ds ! 1 \<le> ds' ! 1" by simp
  with d(1,2) example_graph_ok(1,2) i u b show ?thesis by blast
qed

text \<open>
  Without the bound C7 fails: raising a weight from 5 to 1073741824 makes the sum
  \<^verbatim>\<open>dist[u] + weight\<close> leave the range of \<^verbatim>\<open>int\<close>, and the second run has no array
  to return.
\<close>

theorem dijkstra_overflow_counterexample:
  "dijkstra 3 [[(1, 1073741824)], [(2, 5)], []] 0 = Inr [0, 1073741824, 1073741829] \<and>
   dijkstra 3 (set_weight [[(1, 1073741824)], [(2, 5)], []] 1 0 1073741824) 0 = Inl SignedOverflow"
  by code_simp

subsection \<open>C8: start equal to goal\<close>

text \<open>
  Claim C8. For every grid and every cell inside it, a search from that cell to
  itself returns the sequence of that one cell. Nothing is asked of what the grid
  holds there, so this covers every walkable cell.
\<close>

theorem start_is_goal:
  assumes "isValid r c (int (length grid)) (int (length (grid ! 0)))"
  shows "aStarSearch grid r c r c = Some (Inr [(r, c)])"
proof -
  from assms have "grid \<noteq> []" by (auto simp: isValid_def)
  with assms show ?thesis
    by (simp add: aStarSearch_def aStarSearch_run_def aStar_init_def Let_def pq_push_Nil
        aStar_loop.simps pq_pop_single new_Node_def reconstruct.simps)
qed

text \<open>
  C8 on the example grid, from (1, 0) to (1, 0).
\<close>

theorem start_is_goal_witness:
  "isValid 1 0 (int (length example_grid)) (int (length (example_grid ! 0))) \<and>
   walkable example_grid (1, 0) \<and>
   aStarSearch example_grid 1 0 1 0 = Some (Inr [(1, 0)])"
proof -
  have h: "isValid 1 0 (int (length example_grid)) (int (length (example_grid ! 0)))"
    by (simp add: example_grid_def isValid_def)
  have w: "walkable example_grid (1, 0)" by (simp add: walkable_def example_grid_def)
  from start_is_goal[OF h] h w show ?thesis by simp
qed

subsection \<open>C10: the returned path visits no cell twice\<close>

text \<open>
  Claim C10. \<^verbatim>\<open>aStarSearch\<close> returns on every input: the reconstruction loop ends.
  When it returns a path, the cells of the path are pairwise different, the start
  node still has no parent, and a path that is not empty begins at the start and
  ends at the goal.
\<close>

theorem aStar_path_distinct:
  "aStarSearch grid sr sc gr gc \<noteq> None \<and>
   (aStarSearch_run grid sr sc gr gc = Some (Inr (path, stF)) \<longrightarrow>
      aStarSearch grid sr sc gr gc = Some (Inr path) \<and> distinct path \<and>
      parent (allNodes stF (sr, sc)) = None \<and>
      (path \<noteq> [] \<longrightarrow> hd path = (sr, sc) \<and> last path = (gr, gc)))"
proof -
  have 1: "aStarSearch grid sr sc gr gc \<noteq> None"
    using aStarSearch_run_Some[of grid sr sc gr gc] by (auto simp: aStarSearch_def)
  have 2: "aStarSearch grid sr sc gr gc = Some (Inr path) \<and> distinct path \<and>
           parent (allNodes stF (sr, sc)) = None \<and>
           (path \<noteq> [] \<longrightarrow> hd path = (sr, sc) \<and> last path = (gr, gc))"
    if run: "aStarSearch_run grid sr sc gr gc = Some (Inr (path, stF))"
  proof -
    have a: "aStarSearch grid sr sc gr gc = Some (Inr path)"
      using run by (simp add: aStarSearch_def)
    have b: "parent (allNodes stF (sr, sc)) = None"
      using aStarSearch_run_Inr(1)[OF run] by (rule astar_invD)
    have c: "distinct path \<and> (path \<noteq> [] \<longrightarrow> hd path = (sr, sc) \<and> last path = (gr, gc))"
    proof (cases "path = []")
      case True
      then show ?thesis by simp
    next
      case False
      from aStarSearch_run_Inr(2)[OF run False] show ?thesis by (simp add: path_ok_def)
    qed
    from a b c show ?thesis by blast
  qed
  from 1 2 show ?thesis by blast
qed

text \<open>
  C10 on the example grid.
\<close>

theorem aStar_path_distinct_witness:
  "\<exists>stF. aStarSearch_run example_grid 0 0 2 2
            = Some (Inr ([(0, 0), (1, 0), (2, 0), (2, 1), (2, 2)], stF)) \<and>
         aStarSearch example_grid 0 0 2 2
            = Some (Inr [(0, 0), (1, 0), (2, 0), (2, 1), (2, 2)]) \<and>
         parent (allNodes stF (0, 0)) = None"
proof -
  from aStarSearch_Inr[OF example_grid_run] obtain stF where
    stF: "aStarSearch_run example_grid 0 0 2 2
            = Some (Inr ([(0, 0), (1, 0), (2, 0), (2, 1), (2, 2)], stF))" ..
  from aStar_path_distinct[of example_grid 0 0 2 2 "[(0, 0), (1, 0), (2, 0), (2, 1), (2, 2)]" stF]
    stF
  have "parent (allNodes stF (0, 0)) = None" by simp
  with stF example_grid_run show ?thesis by blast
qed

end
